theory Spec2Isabelle
  imports Main "HOL-Library.AList" "HOL-Library.Multiset"
begin

section \<open>Strings and arrays of the script\<close>

text \<open>
  The script \<^verbatim>\<open>.github/scripts/maintainers/index.js\<close> works on JavaScript strings.
  A string is modelled as a \<^typ>\<open>string\<close>, one \<^typ>\<open>char\<close> per code unit, for the
  code units \<open>U+0000\<close> to \<open>U+00FF\<close>. On these, the white space of \<^verbatim>\<open>\s\<close> and of
  \<^verbatim>\<open>trim()\<close> is TAB, LF, VT, FF, CR, SPACE and NBSP, and \<^verbatim>\<open>toLowerCase()\<close> moves
  \<open>A\<close>-\<open>Z\<close> and the capital letters \<open>U+00C0\<close>-\<open>U+00DE\<close> (without the times sign
  \<open>U+00D7\<close>) up by 32.
\<close>

definition isWhiteSpace :: "char \<Rightarrow> bool" where
  "isWhiteSpace c \<longleftrightarrow>
     c \<in> {CHR 0x09, CHR 0x0A, CHR 0x0B, CHR 0x0C, CHR 0x0D, CHR 0x20, CHR 0xA0}"

definition toLowerCaseChar :: "char \<Rightarrow> char" where
  "toLowerCaseChar c =
     (let n = (of_char c :: nat)
      in if (65 \<le> n \<and> n \<le> 90) \<or> (192 \<le> n \<and> n \<le> 222 \<and> n \<noteq> 215)
         then char_of (n + 32) else c)"

definition toLowerCase :: "string \<Rightarrow> string" where
  "toLowerCase s = map toLowerCaseChar s"

text \<open>\<^verbatim>\<open>s.trim()\<close>\<close>

definition trim :: "string \<Rightarrow> string" where
  "trim s = rev (dropWhile isWhiteSpace (rev (dropWhile isWhiteSpace s)))"

text \<open>\<^verbatim>\<open>s.startsWith(p)\<close>\<close>

definition startsWith :: "string \<Rightarrow> string \<Rightarrow> bool" where
  "startsWith s p \<longleftrightarrow> take (length p) s = p"

text \<open>
  \<^verbatim>\<open>s.split(c)\<close> for a separator of one character: the scan keeps the piece read so
  far in \<open>acc\<close> and closes it at every separator. The result is never empty.
\<close>

fun splitFrom :: "char \<Rightarrow> string \<Rightarrow> string \<Rightarrow> string list" where
  "splitFrom c acc [] = [acc]"
| "splitFrom c acc (x # xs) =
     (if x = c then acc # splitFrom c [] xs else splitFrom c (acc @ [x]) xs)"

definition splitOn :: "char \<Rightarrow> string \<Rightarrow> string list" where
  "splitOn c s = splitFrom c [] s"

text \<open>
  \<^verbatim>\<open>s.split(/\s+/)\<close>: a match starts at the first white space character and, being
  greedy, takes the whole run.
\<close>

function splitWhiteSpace :: "string \<Rightarrow> string \<Rightarrow> string list" where
  "splitWhiteSpace acc [] = [acc]"
| "splitWhiteSpace acc (x # xs) =
     (if isWhiteSpace x then acc # splitWhiteSpace [] (dropWhile isWhiteSpace xs)
      else splitWhiteSpace (acc @ [x]) xs)"
  by pat_completeness auto
termination
  by (relation "measure (\<lambda>(acc, s). length s)") (auto simp: length_dropWhile_le less_Suc_eq_le)

text \<open>
  \<^verbatim>\<open>function splitByWhitespace(line) { return line.trim().split(/\s+/); }\<close>
\<close>

definition splitByWhitespace :: "string \<Rightarrow> string list" where
  "splitByWhitespace line = splitWhiteSpace [] (trim line)"

text \<open>
  \<^verbatim>\<open>comment.split(/docTriagers:|codeTriagers:/)\<close>: at each position the first
  alternative is tried before the second; after a match the scan goes on behind it.
\<close>

definition docTriagers :: string where
  "docTriagers = ''docTriagers:''"

definition codeTriagers :: string where
  "codeTriagers = ''codeTriagers:''"

function splitTriagers :: "string \<Rightarrow> string \<Rightarrow> string list" where
  "splitTriagers acc [] = [acc]"
| "splitTriagers acc (x # xs) =
     (if startsWith (x # xs) docTriagers
        then acc # splitTriagers [] (drop (length docTriagers) (x # xs))
      else if startsWith (x # xs) codeTriagers
        then acc # splitTriagers [] (drop (length codeTriagers) (x # xs))
      else splitTriagers (acc @ [x]) xs)"
  by pat_completeness auto
termination
  by (relation "measure (\<lambda>(acc, s). length s)") (auto simp: docTriagers_def codeTriagers_def)

text \<open>\<^verbatim>\<open>xs[i]\<close>, which is \<^verbatim>\<open>undefined\<close> out of range.\<close>

definition at :: "'a list \<Rightarrow> nat \<Rightarrow> 'a option" where
  "at xs i = (if i < length xs then Some (xs ! i) else None)"

text \<open>
  A \<^verbatim>\<open>Set\<close> of strings is the list of its elements in insertion order, which is the
  order \<^verbatim>\<open>for ... of\<close> visits them in. \<^verbatim>\<open>set.add(x)\<close>:
\<close>

definition setAdd :: "string list \<Rightarrow> string \<Rightarrow> string list" where
  "setAdd s x = (if x \<in> set s then s else s @ [x])"

section \<open>Diagnostics\<close>

text \<open>The calls on \<^verbatim>\<open>core\<close>, in the order they are made.\<close>

datatype diagnostic =
    Warning string
  | Debug string
  | Info string
  | StartGroup string
  | EndGroup

section \<open>extractGitHubUsernames\<close>

text \<open>
  The loop over the owners of a declaration (lines 60 to 66):
  \<^verbatim>\<open>
  for (const owner of owners.slice(1)) {
    if (!owner.startsWith("@") || owner.includes("/")) {
      core.warning(`Skipping '${owner}' as emails and teams are not supported yet`);
      continue;
    }
    uniqueOwners.add(owner.slice(1)); // remove the '@'
  }
  \<close>
\<close>

definition skippingMessage :: "string \<Rightarrow> string" where
  "skippingMessage owner =
     ''Skipping '' @ [CHR 0x27] @ owner @ [CHR 0x27] @ '' as emails and teams are not supported yet''"

fun nativeOwners :: "string list \<Rightarrow> string list \<times> diagnostic list \<Rightarrow> string list \<times> diagnostic list" where
  "nativeOwners [] (uniqueOwners, core) = (uniqueOwners, core)"
| "nativeOwners (owner # owners) (uniqueOwners, core) =
     (if \<not> startsWith owner ''@'' \<or> CHR ''/'' \<in> set owner
      then nativeOwners owners (uniqueOwners, core @ [Warning (skippingMessage owner)])
      else nativeOwners owners (setAdd uniqueOwners (drop 1 owner), core))"

text \<open>
  The custom owners of a comment (lines 50 to 54):
  \<^verbatim>\<open>
  const triagers = comment.split(/docTriagers:|codeTriagers:/)[1]
  if (triagers) {
    const owners = splitByWhitespace(triagers)
    owners.forEach(owner => uniqueOwners.add(owner))
  }
  \<close>
  The empty string is falsy, as \<^verbatim>\<open>undefined\<close> is.
\<close>

definition customOwners :: "string \<Rightarrow> string list \<Rightarrow> string list" where
  "customOwners comment uniqueOwners =
     (case at (splitTriagers [] comment) 1 of
        None \<Rightarrow> uniqueOwners
      | Some triagers \<Rightarrow>
          if triagers = [] then uniqueOwners
          else foldl setAdd uniqueOwners (splitByWhitespace triagers))"

text \<open>
  The body of the loop over the lines (lines 46 to 66).
  \<^verbatim>\<open>const [ownersLine, comment = ""] = line.split("#")\<close> takes the first two pieces.
\<close>

definition extractLine :: "string \<Rightarrow> string list \<times> diagnostic list \<Rightarrow> string list \<times> diagnostic list" where
  "extractLine line st =
     (let pieces = splitOn CHR ''#'' line;
          ownersLine = (case at pieces 0 of None \<Rightarrow> [] | Some s \<Rightarrow> s);
          comment = (case at pieces 1 of None \<Rightarrow> [] | Some s \<Rightarrow> s);
          owners = splitByWhitespace ownersLine
      in nativeOwners (drop 1 owners) (customOwners comment (fst st), snd st))"

text \<open>
  \<^verbatim>\<open>
  function extractGitHubUsernames(codeownersContent, core) {
    if (!codeownersContent) return [];
    const uniqueOwners = new Set();
    for (const line of codeownersContent.split("\n")) { ... }
    return uniqueOwners;
  }
  \<close>
  The result is the owners in the order the caller iterates them, with the diagnostics
  the call has sent to \<^verbatim>\<open>core\<close>.
\<close>

definition extractGitHubUsernames :: "string \<Rightarrow> string list \<times> diagnostic list" where
  "extractGitHubUsernames codeownersContent =
     (if codeownersContent = [] then ([], [])
      else fold extractLine (splitOn CHR 0x0A codeownersContent) ([], []))"

section \<open>Objects\<close>

text \<open>
  The values the script stores in its records. A record (a profile, an entry of the
  current maintainers, an entry of the maintainers file) is the list of its own
  properties in insertion order; \<open>AList.update\<close> is the assignment \<^verbatim>\<open>o[k] = v\<close> and
  \<open>AList.delete\<close> is \<^verbatim>\<open>delete o[k]\<close>.
\<close>

datatype jsval =
    JUndefined
  | JNull
  | JBool bool
  | JNum int
  | JStr string
  | JArr "jsval list"
  | JObj "(string \<times> jsval) list"

type_synonym jsobject = "(string \<times> jsval) list"

text \<open>
  \<^verbatim>\<open>o.f\<close> for the properties \<^verbatim>\<open>github\<close>, \<^verbatim>\<open>repos\<close> and \<^verbatim>\<open>githubID\<close>, which no
  prototype defines: the own property, or \<^verbatim>\<open>undefined\<close>.
\<close>

definition getField :: "jsobject \<Rightarrow> string \<Rightarrow> jsval" where
  "getField obj f = (case map_of obj f of None \<Rightarrow> JUndefined | Some v \<Rightarrow> v)"

text \<open>
  \<^verbatim>\<open>currentMaintainers\<close> is created by \<^verbatim>\<open>{}\<close>, so \<^verbatim>\<open>currentMaintainers[key]\<close>
  finds the properties of \<^verbatim>\<open>Object.prototype\<close> where the object has none of its own.
  All of them are truthy (functions, and the prototype itself for \<^verbatim>\<open>__proto__\<close>) and
  none has a property \<^verbatim>\<open>repos\<close> or \<^verbatim>\<open>githubID\<close>.
\<close>

definition objectPrototype :: "string list" where
  "objectPrototype =
     [''constructor'', ''__defineGetter__'', ''__defineSetter__'', ''hasOwnProperty'',
      ''__lookupGetter__'', ''__lookupSetter__'', ''isPrototypeOf'',
      ''propertyIsEnumerable'', ''toString'', ''valueOf'', ''__proto__'',
      ''toLocaleString'']"

datatype 'a property = Own 'a | Inherited | Absent

definition getProperty :: "(string \<times> 'a) list \<Rightarrow> string \<Rightarrow> 'a property" where
  "getProperty obj key =
     (case map_of obj key of
        Some v \<Rightarrow> Own v
      | None \<Rightarrow> if key \<in> set objectPrototype then Inherited else Absent)"

text \<open>
  \<^verbatim>\<open>Object.values(o)\<close> visits the keys that are array indices first, in ascending
  numeric order, and then the other keys in insertion order.
\<close>

definition isDigit :: "char \<Rightarrow> bool" where
  "isDigit c \<longleftrightarrow> 48 \<le> (of_char c :: nat) \<and> (of_char c :: nat) \<le> 57"

definition numericValue :: "string \<Rightarrow> nat" where
  "numericValue k = foldl (\<lambda>n c. 10 * n + (of_char c - 48)) 0 k"

definition isArrayIndex :: "string \<Rightarrow> bool" where
  "isArrayIndex k \<longleftrightarrow>
     k \<noteq> [] \<and> list_all isDigit k \<and> (k = ''0'' \<or> take 1 k \<noteq> ''0'')
     \<and> numericValue k < 2 ^ 32 - 1"

definition objectEntries :: "(string \<times> 'a) list \<Rightarrow> (string \<times> 'a) list" where
  "objectEntries obj =
     sort_key (\<lambda>p. numericValue (fst p)) (filter (\<lambda>p. isArrayIndex (fst p)) obj)
     @ filter (\<lambda>p. \<not> isArrayIndex (fst p)) obj"

definition objectValues :: "(string \<times> 'a) list \<Rightarrow> 'a list" where
  "objectValues obj = map snd (objectEntries obj)"

section \<open>Exceptions\<close>

text \<open>
  A call returns, or throws with the state it has reached: what it has done to its
  arguments and to the outside until then stays done.
\<close>

datatype error = TypeError

datatype 's outcome = Returned 's | Thrown error 's

fun final :: "'s outcome \<Rightarrow> 's" where
  "final (Returned s) = s"
| "final (Thrown e s) = s"

section \<open>collectCurrentMaintainers\<close>

record codeowners =
  repo :: string
  content :: string

text \<open>
  The state of a collection pass: the object \<^verbatim>\<open>currentMaintainers\<close>, the outside that
  \<^verbatim>\<open>getGitHubProfile\<close> reads and changes through \<^verbatim>\<open>github\<close>, the calls of
  \<^verbatim>\<open>getGitHubProfile\<close> made so far with their results, and the calls on \<^verbatim>\<open>core\<close>.
  \<^verbatim>\<open>getGitHubProfile\<close> is defined in \<^verbatim>\<open>./gh_calls\<close>: it is a parameter here, and
  its result is a profile or nothing. \<^verbatim>\<open>config.ignoredUsers\<close> is a parameter as well.
\<close>

record 'g collect_state =
  currentMaintainers :: "(string \<times> jsobject) list"
  github :: 'g
  calls :: "(string \<times> jsobject option) list"
  diagnostics :: "diagnostic list"

definition ignoreListMessage :: "string \<Rightarrow> string \<Rightarrow> string" where
  "ignoreListMessage r owner =
     ''[repo: '' @ r @ '']: The user '' @ [CHR 0x27] @ owner @ [CHR 0x27]
     @ '' is on the ignore list. Skipping...''"

definition notFoundMessage :: "string \<Rightarrow> string \<Rightarrow> string" where
  "notFoundMessage r owner = ''[repo: '' @ r @ '']: GitHub profile not found for '' @ owner @ ''.''"

text \<open>
  Line 100, \<^verbatim>\<open>currentMaintainers[key].repos.push(codeowners.repo)\<close>: a value without an
  array \<^verbatim>\<open>repos\<close> makes \<^verbatim>\<open>push\<close> throw.
\<close>

definition pushRepo :: "string \<Rightarrow> string \<Rightarrow> 'g collect_state \<Rightarrow> 'g collect_state outcome" where
  "pushRepo key r st =
     (case getProperty (currentMaintainers st) key of
        Own entry \<Rightarrow>
          (case getField entry ''repos'' of
             JArr repos \<Rightarrow>
               Returned (st\<lparr>currentMaintainers :=
                 AList.update key (AList.update ''repos'' (JArr (repos @ [JStr r])) entry)
                   (currentMaintainers st)\<rparr>)
           | _ \<Rightarrow> Thrown TypeError st)
      | _ \<Rightarrow> Thrown TypeError st)"

text \<open>The body of the loop over the owners of one file (lines 80 to 100).\<close>

definition collectOwner ::
  "('g \<Rightarrow> string \<Rightarrow> jsobject option \<times> 'g) \<Rightarrow> string list \<Rightarrow> string \<Rightarrow> string
     \<Rightarrow> 'g collect_state \<Rightarrow> 'g collect_state outcome" where
  "collectOwner getGitHubProfile ignoredUsers r owner st =
     (if owner \<in> set ignoredUsers
      then Returned (st\<lparr>diagnostics := diagnostics st @ [Debug (ignoreListMessage r owner)]\<rparr>)
      else
        let key = toLowerCase owner
        in case getProperty (currentMaintainers st) key of
             Absent \<Rightarrow>
               (let (profile, github') = getGitHubProfile (github st) owner;
                    st1 = st\<lparr>github := github', calls := calls st @ [(owner, profile)]\<rparr>
                in case profile of
                     None \<Rightarrow>
                       Returned (st1\<lparr>diagnostics :=
                         diagnostics st1 @ [Warning (notFoundMessage r owner)]\<rparr>)
                   | Some p \<Rightarrow>
                       pushRepo key r (st1\<lparr>currentMaintainers :=
                         AList.update key (AList.update ''repos'' (JArr []) p)
                           (currentMaintainers st1)\<rparr>))
           | _ \<Rightarrow> pushRepo key r st)"

fun collectOwners ::
  "('g \<Rightarrow> string \<Rightarrow> jsobject option \<times> 'g) \<Rightarrow> string list \<Rightarrow> string \<Rightarrow> string list
     \<Rightarrow> 'g collect_state \<Rightarrow> 'g collect_state outcome" where
  "collectOwners getGitHubProfile ignoredUsers r [] st = Returned st"
| "collectOwners getGitHubProfile ignoredUsers r (owner # owners) st =
     (case collectOwner getGitHubProfile ignoredUsers r owner st of
        Returned st' \<Rightarrow> collectOwners getGitHubProfile ignoredUsers r owners st'
      | Thrown e st' \<Rightarrow> Thrown e st')"

text \<open>The body of the loop over the files (lines 77 to 101).\<close>

definition collectFile ::
  "('g \<Rightarrow> string \<Rightarrow> jsobject option \<times> 'g) \<Rightarrow> string list \<Rightarrow> codeowners
     \<Rightarrow> 'g collect_state \<Rightarrow> 'g collect_state outcome" where
  "collectFile getGitHubProfile ignoredUsers file st =
     (let (owners, warnings) = extractGitHubUsernames (content file)
      in collectOwners getGitHubProfile ignoredUsers (repo file) owners
           (st\<lparr>diagnostics := diagnostics st @ warnings\<rparr>))"

fun collectFiles ::
  "('g \<Rightarrow> string \<Rightarrow> jsobject option \<times> 'g) \<Rightarrow> string list \<Rightarrow> codeowners list
     \<Rightarrow> 'g collect_state \<Rightarrow> 'g collect_state outcome" where
  "collectFiles getGitHubProfile ignoredUsers [] st = Returned st"
| "collectFiles getGitHubProfile ignoredUsers (file # files) st =
     (case collectFile getGitHubProfile ignoredUsers file st of
        Returned st' \<Rightarrow> collectFiles getGitHubProfile ignoredUsers files st'
      | Thrown e st' \<Rightarrow> Thrown e st')"

definition collectCurrentMaintainers ::
  "('g \<Rightarrow> string \<Rightarrow> jsobject option \<times> 'g) \<Rightarrow> string list \<Rightarrow> codeowners list \<Rightarrow> 'g
     \<Rightarrow> 'g collect_state outcome" where
  "collectCurrentMaintainers getGitHubProfile ignoredUsers codeownersFiles gh =
     (case collectFiles getGitHubProfile ignoredUsers codeownersFiles
             \<lparr>currentMaintainers = [], github = gh, calls = [],
              diagnostics = [StartGroup ''Fetching  GitHub profile information for each codeowner'']\<rparr> of
        Returned st \<Rightarrow> Returned (st\<lparr>diagnostics := diagnostics st @ [EndGroup]\<rparr>)
      | Thrown e st \<Rightarrow> Thrown e st)"

section \<open>refreshPreviousMaintainers\<close>

text \<open>
  The state of the call: the array \<^verbatim>\<open>updatedMaintainers\<close>, the object
  \<^verbatim>\<open>currentMaintainers\<close> of the caller, which the loop deletes from, and the calls on
  \<^verbatim>\<open>core\<close>.
\<close>

record refresh_state =
  updatedMaintainers :: "jsobject list"
  remainingMaintainers :: "(string \<times> jsobject) list"
  notices :: "diagnostic list"

definition removingMessage :: "string \<Rightarrow> string" where
  "removingMessage gh =
     ''The previous '' @ gh @ '' maintainer was not found in any CODEOWNERS file. Removing...''"

text \<open>
  The body of the loop over the previous maintainers (lines 121 to 135).
  \<^verbatim>\<open>previousEntry.github.toLowerCase()\<close> throws unless \<^verbatim>\<open>github\<close> is a string.
\<close>

definition refreshEntry :: "jsobject \<Rightarrow> refresh_state \<Rightarrow> refresh_state outcome" where
  "refreshEntry previousEntry st =
     (case getField previousEntry ''github'' of
        JStr gh \<Rightarrow>
          (let key = toLowerCase gh
           in case getProperty (remainingMaintainers st) key of
                Absent \<Rightarrow> Returned (st\<lparr>notices := notices st @ [Info (removingMessage gh)]\<rparr>)
              | Own currentMaintainer \<Rightarrow>
                  Returned (st\<lparr>remainingMaintainers := AList.delete key (remainingMaintainers st),
                    updatedMaintainers := updatedMaintainers st @
                      [AList.update ''githubID'' (getField currentMaintainer ''githubID'')
                         (AList.update ''repos'' (getField currentMaintainer ''repos'') previousEntry)]\<rparr>)
              | Inherited \<Rightarrow>
                  Returned (st\<lparr>remainingMaintainers := AList.delete key (remainingMaintainers st),
                    updatedMaintainers := updatedMaintainers st @
                      [AList.update ''githubID'' JUndefined
                         (AList.update ''repos'' JUndefined previousEntry)]\<rparr>))
      | _ \<Rightarrow> Thrown TypeError st)"

fun refreshEntries :: "jsobject list \<Rightarrow> refresh_state \<Rightarrow> refresh_state outcome" where
  "refreshEntries [] st = Returned st"
| "refreshEntries (previousEntry # previousMaintainers) st =
     (case refreshEntry previousEntry st of
        Returned st' \<Rightarrow> refreshEntries previousMaintainers st'
      | Thrown e st' \<Rightarrow> Thrown e st')"

definition refreshPreviousMaintainers ::
  "jsobject list \<Rightarrow> (string \<times> jsobject) list \<Rightarrow> refresh_state outcome" where
  "refreshPreviousMaintainers previousMaintainers current =
     (case refreshEntries previousMaintainers
             \<lparr>updatedMaintainers = [], remainingMaintainers = current,
              notices = [StartGroup ''Refreshing previous maintainers list'']\<rparr> of
        Returned st \<Rightarrow>
          Returned (st\<lparr>updatedMaintainers :=
                        updatedMaintainers st @ objectValues (remainingMaintainers st),
                      notices := notices st @ [EndGroup]\<rparr>)
      | Thrown e st \<Rightarrow> Thrown e st)"

section \<open>What a pass has recorded\<close>

text \<open>
  The repositories recorded for a key of \<^verbatim>\<open>currentMaintainers\<close>: the elements of the
  array \<^verbatim>\<open>repos\<close> of its entry, and none where the key has no entry.
\<close>

definition reposOf :: "(string \<times> jsobject) list \<Rightarrow> string \<Rightarrow> jsval list" where
  "reposOf current key =
     (case map_of current key of
        None \<Rightarrow> []
      | Some entry \<Rightarrow> (case getField entry ''repos'' of JArr repos \<Rightarrow> repos | _ \<Rightarrow> []))"

text \<open>Every entry has an array \<^verbatim>\<open>repos\<close>: line 97 creates the entries with one.\<close>

definition hasRepos :: "(string \<times> jsobject) list \<Rightarrow> bool" where
  "hasRepos current \<longleftrightarrow>
     (\<forall>key entry. map_of current key = Some entry \<longrightarrow> (\<exists>repos. getField entry ''repos'' = JArr repos))"

text \<open>The key of an entry of the maintainers file, and its \<^verbatim>\<open>github\<close> as written.\<close>

definition githubOf :: "jsobject \<Rightarrow> string" where
  "githubOf previousEntry = (case getField previousEntry ''github'' of JStr gh \<Rightarrow> gh | _ \<Rightarrow> [])"

definition keyOf :: "jsobject \<Rightarrow> string" where
  "keyOf previousEntry = toLowerCase (githubOf previousEntry)"

text \<open>
  For stating what \<^verbatim>\<open>refreshPreviousMaintainers\<close> returns: the object
  \<^verbatim>\<open>currentMaintainers\<close> after the keys of some previous entries have been deleted, and
  the entry pushed for a previous entry whose key the object has (with the fields of
  its own entry, or with \<^verbatim>\<open>undefined\<close> for an inherited value).
\<close>

definition remainingAfter :: "(string \<times> jsobject) list \<Rightarrow> jsobject list \<Rightarrow> (string \<times> jsobject) list" where
  "remainingAfter current previous = filter (\<lambda>q. fst q \<notin> keyOf ` set previous) current"

definition refreshedEntry :: "jsobject property \<Rightarrow> jsobject \<Rightarrow> jsobject" where
  "refreshedEntry found previousEntry =
     AList.update ''githubID'' (case found of Own e \<Rightarrow> getField e ''githubID'' | _ \<Rightarrow> JUndefined)
       (AList.update ''repos'' (case found of Own e \<Rightarrow> getField e ''repos'' | _ \<Rightarrow> JUndefined)
          previousEntry)"

section \<open>Inputs of the examples\<close>

text \<open>A lookup that finds no profile, and one that finds a profile for every name.\<close>

definition noProfile :: "unit \<Rightarrow> string \<Rightarrow> jsobject option \<times> unit" where
  "noProfile gh owner = (None, gh)"

definition anyProfile :: "unit \<Rightarrow> string \<Rightarrow> jsobject option \<times> unit" where
  "anyProfile gh owner = (Some [(''github'', JStr owner), (''githubID'', JNum 7)], gh)"

lemmas string_defs =
  isWhiteSpace_def toLowerCaseChar_def toLowerCase_def trim_def startsWith_def splitOn_def
  splitByWhitespace_def docTriagers_def codeTriagers_def at_def setAdd_def
  Let_def char_of_def bit_Suc_0_iff

lemmas extract_defs =
  string_defs skippingMessage_def customOwners_def extractLine_def extractGitHubUsernames_def

lemmas object_defs =
  getField_def objectPrototype_def getProperty_def isDigit_def numericValue_def
  isArrayIndex_def objectEntries_def objectValues_def

lemmas collect_defs =
  extract_defs object_defs ignoreListMessage_def notFoundMessage_def pushRepo_def
  collectOwner_def collectFile_def collectCurrentMaintainers_def

lemmas refresh_defs =
  string_defs object_defs removingMessage_def refreshEntry_def refreshPreviousMaintainers_def

section \<open>Splitting\<close>

lemma splitFrom_takeWhile:
  "splitFrom c acc s =
     (acc @ takeWhile (\<lambda>x. x \<noteq> c) s) #
       (case dropWhile (\<lambda>x. x \<noteq> c) s of [] \<Rightarrow> [] | y # rest \<Rightarrow> splitFrom c [] rest)"
  by (induction s arbitrary: acc) auto

lemma splitFrom_nonempty: "splitFrom c acc s \<noteq> []"
  by (subst splitFrom_takeWhile) simp

lemma hd_splitFrom: "hd (splitFrom c acc s) = acc @ takeWhile (\<lambda>x. x \<noteq> c) s"
  by (simp add: splitFrom_takeWhile [of c acc s])

lemma splitOn_0: "at (splitOn c s) 0 = Some (takeWhile (\<lambda>x. x \<noteq> c) s)"
  by (simp add: splitOn_def at_def splitFrom_nonempty hd_splitFrom flip: hd_conv_nth)

lemma splitOn_1:
  "(case at (splitOn c s) 1 of None \<Rightarrow> [] | Some t \<Rightarrow> t)
     = takeWhile (\<lambda>x. x \<noteq> c) (drop 1 (dropWhile (\<lambda>x. x \<noteq> c) s))"
proof (cases "dropWhile (\<lambda>x. x \<noteq> c) s")
  case Nil
  have "splitOn c s = [takeWhile (\<lambda>x. x \<noteq> c) s]"
    unfolding splitOn_def by (subst splitFrom_takeWhile) (simp only: Nil list.case append_Nil)
  then show ?thesis
    by (simp add: at_def Nil)
next
  case (Cons y rest)
  have "splitOn c s = takeWhile (\<lambda>x. x \<noteq> c) s # splitFrom c [] rest"
    unfolding splitOn_def by (subst splitFrom_takeWhile) (simp only: Cons list.case append_Nil)
  then show ?thesis
    by (simp add: at_def Cons splitFrom_nonempty hd_splitFrom flip: hd_conv_nth)
qed

lemma nativeOwners_filter:
  "nativeOwners owners (uniqueOwners, core) =
     (foldl setAdd uniqueOwners
        (map (drop 1) (filter (\<lambda>t. startsWith t ''@'' \<and> CHR ''/'' \<notin> set t) owners)),
      core @ map (\<lambda>t. Warning (skippingMessage t))
        (filter (\<lambda>t. \<not> (startsWith t ''@'' \<and> CHR ''/'' \<notin> set t)) owners))"
  by (induction owners arbitrary: uniqueOwners core) auto

lemma extractLine_filter:
  "extractLine line (uniqueOwners, core) =
     (foldl setAdd
        (customOwners (takeWhile (\<lambda>c. c \<noteq> CHR ''#'') (drop 1 (dropWhile (\<lambda>c. c \<noteq> CHR ''#'') line)))
           uniqueOwners)
        (map (drop 1) (filter (\<lambda>t. startsWith t ''@'' \<and> CHR ''/'' \<notin> set t)
           (drop 1 (splitByWhitespace (takeWhile (\<lambda>c. c \<noteq> CHR ''#'') line))))),
      core @ map (\<lambda>t. Warning (skippingMessage t))
        (filter (\<lambda>t. \<not> (startsWith t ''@'' \<and> CHR ''/'' \<notin> set t))
           (drop 1 (splitByWhitespace (takeWhile (\<lambda>c. c \<noteq> CHR ''#'') line)))))"
  unfolding extractLine_def Let_def
  by (simp only: splitOn_0 splitOn_1 option.case nativeOwners_filter fst_conv snd_conv)

lemma splitTriagers_skip:
  "\<forall>i<length pre. \<not> startsWith (drop i (pre @ s)) docTriagers
       \<and> \<not> startsWith (drop i (pre @ s)) codeTriagers
   \<Longrightarrow> splitTriagers acc (pre @ s) = splitTriagers (acc @ pre) s"
proof (induction pre arbitrary: acc)
  case Nil
  then show ?case by simp
next
  case (Cons x pre)
  from Cons.prems have here: "\<not> startsWith (x # pre @ s) docTriagers"
      "\<not> startsWith (x # pre @ s) codeTriagers"
    by fastforce+
  from Cons.prems have later: "\<forall>i<length pre. \<not> startsWith (drop i (pre @ s)) docTriagers
       \<and> \<not> startsWith (drop i (pre @ s)) codeTriagers"
    by fastforce
  show ?case
    using here Cons.IH [OF later, of "acc @ [x]"] by simp
qed

lemma splitTriagers_plain:
  "\<forall>i<length s. \<not> startsWith (drop i s) docTriagers \<and> \<not> startsWith (drop i s) codeTriagers
   \<Longrightarrow> splitTriagers acc s = [acc @ s]"
  using splitTriagers_skip [of s "[]" acc] by simp

lemma splitTriagers_marker:
  "m = docTriagers \<or> m = codeTriagers \<Longrightarrow> splitTriagers acc (m @ rest) = acc # splitTriagers [] rest"
  by (auto simp: docTriagers_def codeTriagers_def startsWith_def)

lemma splitTriagers_first:
  assumes "m = docTriagers \<or> m = codeTriagers"
    and "\<forall>i<length pre. \<not> startsWith (drop i (pre @ m @ rest)) docTriagers
           \<and> \<not> startsWith (drop i (pre @ m @ rest)) codeTriagers"
  shows "splitTriagers [] (pre @ m @ rest) = pre # splitTriagers [] rest"
  using splitTriagers_skip [OF assms(2), of "[]"] splitTriagers_marker [OF assms(1)] by simp

lemma single_line:
  assumes "CHR 0x0A \<notin> set s"
  shows "splitOn CHR 0x0A s = [s]"
proof -
  have whole: "takeWhile (\<lambda>x. x \<noteq> CHR 0x0A) s = s" "dropWhile (\<lambda>x. x \<noteq> CHR 0x0A) s = []"
    using assms by auto
  show ?thesis
    unfolding splitOn_def by (subst splitFrom_takeWhile) (simp only: whole list.case append_Nil)
qed

lemma splitWhiteSpace_chars:
  "t \<in> set (splitWhiteSpace acc s) \<Longrightarrow> c \<in> set t \<Longrightarrow> c \<in> set acc \<or> \<not> isWhiteSpace c"
proof (induction acc s arbitrary: t rule: splitWhiteSpace.induct)
  case (1 acc)
  then show ?case by simp
next
  case (2 acc x xs)
  show ?case
  proof (cases "isWhiteSpace x")
    case True
    with 2 show ?thesis by (auto split: if_splits)
  next
    case False
    with 2 show ?thesis by (auto split: if_splits)
  qed
qed

lemma splitWhiteSpace_Cons:
  "\<exists>rest. splitWhiteSpace acc s = (acc @ takeWhile (\<lambda>c. \<not> isWhiteSpace c) s) # rest"
  by (induction acc s rule: splitWhiteSpace.induct) auto

lemma splitWhiteSpace_tl_nonempty:
  "s = [] \<or> \<not> isWhiteSpace (last s) \<Longrightarrow> t \<in> set (tl (splitWhiteSpace acc s)) \<Longrightarrow> t \<noteq> []"
proof (induction acc s arbitrary: t rule: splitWhiteSpace.induct)
  case (1 acc)
  then show ?case by simp
next
  case (2 acc x xs)
  show ?case
  proof (cases "isWhiteSpace x")
    case ws: True
    let ?s = "dropWhile isWhiteSpace xs"
    from 2(3) ws have xs: "xs \<noteq> []" "\<not> isWhiteSpace (last xs)"
      by (auto split: if_splits)
    then have "?s \<noteq> []"
      by (metis dropWhile_eq_Nil_conv last_in_set)
    then have last: "\<not> isWhiteSpace (last ?s)"
      using xs by (metis takeWhile_dropWhile_id last_appendR)
    have first: "\<not> isWhiteSpace (hd ?s)"
      using \<open>?s \<noteq> []\<close> by (rule hd_dropWhile)
    from 2(4) ws have t: "t \<in> set (splitWhiteSpace [] ?s)"
      by simp
    obtain rest where rest: "splitWhiteSpace [] ?s = takeWhile (\<lambda>c. \<not> isWhiteSpace c) ?s # rest"
      using splitWhiteSpace_Cons [of "[]" ?s] by auto
    show ?thesis
    proof (cases "t \<in> set rest")
      case True
      with rest have "t \<in> set (tl (splitWhiteSpace [] ?s))"
        by simp
      with 2(1) [OF ws] last show ?thesis
        by blast
    next
      case False
      with t rest have "t = takeWhile (\<lambda>c. \<not> isWhiteSpace c) ?s"
        by simp
      with first \<open>?s \<noteq> []\<close> show ?thesis
        by (cases ?s) auto
    qed
  next
    case False
    with 2(3) have "xs = [] \<or> \<not> isWhiteSpace (last xs)"
      by (auto split: if_splits)
    with 2(2) [OF False] 2(4) False show ?thesis
      by simp
  qed
qed

lemma trim_last: "trim s = [] \<or> \<not> isWhiteSpace (last (trim s))"
proof (cases "dropWhile isWhiteSpace (rev (dropWhile isWhiteSpace s))")
  case Nil
  then show ?thesis by (simp add: trim_def)
next
  case (Cons y ys)
  then have "\<not> isWhiteSpace y"
    by (metis hd_dropWhile list.distinct(1) list.sel(1))
  with Cons show ?thesis
    by (simp add: trim_def)
qed

lemma splitByWhitespace_tokens:
  assumes "t \<in> set (drop 1 (splitByWhitespace s))"
  shows "t \<noteq> []" and "\<forall>c \<in> set t. \<not> isWhiteSpace c"
proof -
  from assms have t: "t \<in> set (tl (splitWhiteSpace [] (trim s)))"
    by (simp add: splitByWhitespace_def drop_Suc)
  with trim_last [of s] show "t \<noteq> []"
    by (rule splitWhiteSpace_tl_nonempty)
  from t have "t \<in> set (splitWhiteSpace [] (trim s))"
    by (metis list.sel(2) list.set_sel(2))
  then show "\<forall>c \<in> set t. \<not> isWhiteSpace c"
    using splitWhiteSpace_chars [of t "[]" "trim s"] by auto
qed

lemma set_foldl_setAdd: "set (foldl setAdd s xs) = set s \<union> set xs"
  by (induction xs arbitrary: s) (auto simp: setAdd_def)

lemma set_customOwners: "set (customOwners comment s) = set s \<union> set (customOwners comment [])"
  by (auto simp: customOwners_def set_foldl_setAdd split: option.splits)

lemma fold_extractLine:
  "fold extractLine lines (uniqueOwners, core) =
     (fst (fold extractLine lines (uniqueOwners, core)),
      core @ concat (map (\<lambda>line. map (\<lambda>t. Warning (skippingMessage t))
        (filter (\<lambda>t. \<not> (startsWith t ''@'' \<and> CHR ''/'' \<notin> set t))
           (drop 1 (splitByWhitespace (takeWhile (\<lambda>c. c \<noteq> CHR ''#'') line))))) lines))
   \<and> set (fst (fold extractLine lines (uniqueOwners, core))) =
       set uniqueOwners \<union>
       (\<Union>line \<in> set lines.
          set (customOwners (takeWhile (\<lambda>c. c \<noteq> CHR ''#'') (drop 1 (dropWhile (\<lambda>c. c \<noteq> CHR ''#'') line))) [])
          \<union> set (map (drop 1) (filter (\<lambda>t. startsWith t ''@'' \<and> CHR ''/'' \<notin> set t)
                   (drop 1 (splitByWhitespace (takeWhile (\<lambda>c. c \<noteq> CHR ''#'') line))))))"
proof (induction lines arbitrary: uniqueOwners core)
  case Nil
  then show ?case by simp
next
  case (Cons line lines)
  let ?comment = "takeWhile (\<lambda>c. c \<noteq> CHR ''#'') (drop 1 (dropWhile (\<lambda>c. c \<noteq> CHR ''#'') line))"
  let ?candidates = "drop 1 (splitByWhitespace (takeWhile (\<lambda>c. c \<noteq> CHR ''#'') line))"
  let ?accepted = "\<lambda>t. startsWith t ''@'' \<and> CHR ''/'' \<notin> set t"
  let ?owners = "foldl setAdd (customOwners ?comment uniqueOwners) (map (drop 1) (filter ?accepted ?candidates))"
  let ?core = "core @ map (\<lambda>t. Warning (skippingMessage t)) (filter (\<lambda>t. \<not> ?accepted t) ?candidates)"
  have step: "extractLine line (uniqueOwners, core) = (?owners, ?core)"
    by (rule extractLine_filter)
  have owners: "set ?owners = set uniqueOwners \<union> (set (customOwners ?comment [])
      \<union> set (map (drop 1) (filter ?accepted ?candidates)))"
    using set_customOwners [of ?comment uniqueOwners] by (auto simp: set_foldl_setAdd)
  from Cons.IH [of ?owners ?core] show ?case
    unfolding fold_Cons comp_def step owners
    by (auto simp: case_prod_unfold prod_eq_iff)
qed

section \<open>The standard declaration path\<close>

text \<open>
  Claim C5. On every line, the owners of the declaration are the white space tokens of
  the part before the first \<open>#\<close> without the first one. A token is accepted if and
  only if it starts with \<open>@\<close> and contains no \<open>/\<close>: the accepted tokens are added to
  the set without their first character, in order, after the custom owners of the
  comment, and each other token sends one warning that names it and adds nothing. The
  tokens are not empty and hold no white space. So
  the result of \<^verbatim>\<open>extractGitHubUsernames\<close> for a text that is not empty holds the
  custom owners and the accepted tokens of its lines and nothing else, and its warnings
  are those of the rejected tokens, line by line.
\<close>

theorem standard_declaration_path:
  fixes codeownersContent :: string
  defines "candidates \<equiv> \<lambda>line. drop 1 (splitByWhitespace (takeWhile (\<lambda>c. c \<noteq> CHR ''#'') line))"
    and "comment \<equiv> \<lambda>line. takeWhile (\<lambda>c. c \<noteq> CHR ''#'') (drop 1 (dropWhile (\<lambda>c. c \<noteq> CHR ''#'') line))"
    and "accepted \<equiv> \<lambda>t. startsWith t ''@'' \<and> CHR ''/'' \<notin> set t"
  shows "(\<forall>line uniqueOwners core. extractLine line (uniqueOwners, core) =
            (foldl setAdd (customOwners (comment line) uniqueOwners)
               (map (drop 1) (filter accepted (candidates line))),
             core @ map (\<lambda>t. Warning (skippingMessage t)) (filter (\<lambda>t. \<not> accepted t) (candidates line))))
     \<and> (\<forall>line. \<forall>t \<in> set (candidates line). t \<noteq> [] \<and> (\<forall>c \<in> set t. \<not> isWhiteSpace c))
     \<and> (codeownersContent \<noteq> [] \<longrightarrow>
          set (fst (extractGitHubUsernames codeownersContent)) =
            (\<Union>line \<in> set (splitOn CHR 0x0A codeownersContent).
               set (customOwners (comment line) [])
               \<union> set (map (drop 1) (filter accepted (candidates line))))
          \<and> snd (extractGitHubUsernames codeownersContent) =
            concat (map (\<lambda>line. map (\<lambda>t. Warning (skippingMessage t))
                                (filter (\<lambda>t. \<not> accepted t) (candidates line)))
                     (splitOn CHR 0x0A codeownersContent)))"
proof (intro conjI allI impI ballI)
  fix line uniqueOwners core
  show "extractLine line (uniqueOwners, core) =
            (foldl setAdd (customOwners (comment line) uniqueOwners)
               (map (drop 1) (filter accepted (candidates line))),
             core @ map (\<lambda>t. Warning (skippingMessage t)) (filter (\<lambda>t. \<not> accepted t) (candidates line)))"
    unfolding candidates_def comment_def accepted_def by (rule extractLine_filter)
next
  fix line t
  assume "t \<in> set (candidates line)"
  then show "t \<noteq> []"
    unfolding candidates_def by (rule splitByWhitespace_tokens)
next
  fix line t c
  assume "t \<in> set (candidates line)" and "c \<in> set t"
  then show "\<not> isWhiteSpace c"
    unfolding candidates_def using splitByWhitespace_tokens(2) by blast
next
  assume "codeownersContent \<noteq> []"
  then have all: "extractGitHubUsernames codeownersContent
      = fold extractLine (splitOn CHR 0x0A codeownersContent) ([], [])"
    by (simp add: extractGitHubUsernames_def)
  from fold_extractLine [of "splitOn CHR 0x0A codeownersContent" "[]" "[]"]
  show "set (fst (extractGitHubUsernames codeownersContent)) =
            (\<Union>line \<in> set (splitOn CHR 0x0A codeownersContent).
               set (customOwners (comment line) [])
               \<union> set (map (drop 1) (filter accepted (candidates line))))"
    unfolding all candidates_def comment_def accepted_def by simp
  from fold_extractLine [of "splitOn CHR 0x0A codeownersContent" "[]" "[]"]
  show "snd (extractGitHubUsernames codeownersContent) =
            concat (map (\<lambda>line. map (\<lambda>t. Warning (skippingMessage t))
                                (filter (\<lambda>t. \<not> accepted t) (candidates line)))
                     (splitOn CHR 0x0A codeownersContent))"
    unfolding all candidates_def comment_def accepted_def by (simp add: prod_eq_iff)
qed

theorem standard_declaration_path_witness:
  "extractLine ''*.md @alice dev@example.org @org/team @Bob # reviewers'' ([], []) =
     ([''alice'', ''Bob''],
      [Warning (skippingMessage ''dev@example.org''), Warning (skippingMessage ''@org/team'')])
   \<and> set (fst (extractGitHubUsernames ''* @alice\<newline>docs/ @org/team @Bob # docTriagers: carol'')) =
        {''alice'', ''carol'', ''Bob''}
   \<and> snd (extractGitHubUsernames ''* @alice\<newline>docs/ @org/team @Bob # docTriagers: carol'') =
        [Warning (skippingMessage ''@org/team'')]"
proof -
  note inst = standard_declaration_path [of "''* @alice\<newline>docs/ @org/team @Bob # docTriagers: carol''"]
  from inst [THEN conjunct1, rule_format, of "''*.md @alice dev@example.org @org/team @Bob # reviewers''" "[]" "[]"]
  have "extractLine ''*.md @alice dev@example.org @org/team @Bob # reviewers'' ([], []) =
     ([''alice'', ''Bob''],
      [Warning (skippingMessage ''dev@example.org''), Warning (skippingMessage ''@org/team'')])"
    by (simp add: string_defs customOwners_def)
  moreover from inst [THEN conjunct2, THEN conjunct2]
  have "set (fst (extractGitHubUsernames ''* @alice\<newline>docs/ @org/team @Bob # docTriagers: carol'')) =
        {''alice'', ''carol'', ''Bob''}
     \<and> snd (extractGitHubUsernames ''* @alice\<newline>docs/ @org/team @Bob # docTriagers: carol'') =
        [Warning (skippingMessage ''@org/team'')]"
    by (simp add: string_defs customOwners_def insert_commute del: set_filter)
  ultimately show ?thesis
    by simp
qed

section \<open>The custom owners of a comment\<close>

text \<open>
  Claim C9, as amended. In a comment with a triager marker, the custom owners are taken
  from the text between the first occurrence of a marker and the next occurrence of a
  marker, or the end of the comment where there is no further occurrence: then it is
  everything after the marker. When this text is not empty, each of its white space
  tokens is added to the set as it is; what follows a second marker is not read.
\<close>

theorem triager_annotation_first_segment:
  assumes marker: "m = docTriagers \<or> m = codeTriagers"
    and comment: "comment = pre @ m @ rest"
    and first: "\<forall>i<length pre. \<not> startsWith (drop i comment) docTriagers
                  \<and> \<not> startsWith (drop i comment) codeTriagers"
    and triagers:
      "(triagers = rest \<and>
          (\<forall>i<length rest. \<not> startsWith (drop i rest) docTriagers
                \<and> \<not> startsWith (drop i rest) codeTriagers))
       \<or> (\<exists>m' rest'. (m' = docTriagers \<or> m' = codeTriagers) \<and> rest = triagers @ m' @ rest'
             \<and> (\<forall>i<length triagers. \<not> startsWith (drop i rest) docTriagers
                   \<and> \<not> startsWith (drop i rest) codeTriagers))"
  shows "customOwners comment uniqueOwners =
           (if triagers = [] then uniqueOwners
            else foldl setAdd uniqueOwners (splitByWhitespace triagers))"
proof -
  have outer: "splitTriagers [] comment = pre # splitTriagers [] rest"
    using splitTriagers_first [OF marker] first unfolding comment by blast
  from triagers have "\<exists>more. splitTriagers [] rest = triagers # more"
  proof
    assume "triagers = rest \<and>
          (\<forall>i<length rest. \<not> startsWith (drop i rest) docTriagers
                \<and> \<not> startsWith (drop i rest) codeTriagers)"
    then show ?thesis using splitTriagers_plain [of rest "[]"] by simp
  next
    assume "\<exists>m' rest'. (m' = docTriagers \<or> m' = codeTriagers) \<and> rest = triagers @ m' @ rest'
             \<and> (\<forall>i<length triagers. \<not> startsWith (drop i rest) docTriagers
                   \<and> \<not> startsWith (drop i rest) codeTriagers)"
    then obtain m' rest' where m': "m' = docTriagers \<or> m' = codeTriagers"
      and rest: "rest = triagers @ m' @ rest'"
      and no: "\<forall>i<length triagers. \<not> startsWith (drop i rest) docTriagers
                   \<and> \<not> startsWith (drop i rest) codeTriagers"
      by blast
    show ?thesis
      using splitTriagers_first [OF m', of triagers rest'] no unfolding rest by blast
  qed
  then obtain more where "splitTriagers [] rest = triagers # more" ..
  with outer show ?thesis
    by (simp add: customOwners_def at_def)
qed

theorem triager_annotation_first_segment_witness:
  "customOwners '' docTriagers: a codeTriagers: b'' [] = [''a'']"
proof -
  have marker: "docTriagers = docTriagers \<or> docTriagers = codeTriagers"
    by simp
  have comment: "'' docTriagers: a codeTriagers: b'' = '' '' @ docTriagers @ '' a codeTriagers: b''"
    by (simp add: docTriagers_def)
  have first: "\<forall>i<length '' ''. \<not> startsWith (drop i '' docTriagers: a codeTriagers: b'') docTriagers
                  \<and> \<not> startsWith (drop i '' docTriagers: a codeTriagers: b'') codeTriagers"
    by (simp add: string_defs)
  have "\<exists>m' rest'. (m' = docTriagers \<or> m' = codeTriagers)
          \<and> '' a codeTriagers: b'' = '' a '' @ m' @ rest'
          \<and> (\<forall>i<length '' a ''. \<not> startsWith (drop i '' a codeTriagers: b'') docTriagers
                   \<and> \<not> startsWith (drop i '' a codeTriagers: b'') codeTriagers)"
    by (rule exI [of _ codeTriagers], rule exI [of _ "'' b''"]) (simp add: string_defs less_Suc_eq)
  then have triagers:
    "('' a '' = '' a codeTriagers: b'' \<and>
        (\<forall>i<length '' a codeTriagers: b''. \<not> startsWith (drop i '' a codeTriagers: b'') docTriagers
              \<and> \<not> startsWith (drop i '' a codeTriagers: b'') codeTriagers))
     \<or> (\<exists>m' rest'. (m' = docTriagers \<or> m' = codeTriagers)
          \<and> '' a codeTriagers: b'' = '' a '' @ m' @ rest'
          \<and> (\<forall>i<length '' a ''. \<not> startsWith (drop i '' a codeTriagers: b'') docTriagers
                   \<and> \<not> startsWith (drop i '' a codeTriagers: b'') codeTriagers))"
    by (rule disjI2)
  show ?thesis
    using triager_annotation_first_segment [OF marker comment first triagers, of "[]"]
    by (simp add: string_defs)
qed

text \<open>
  With both markers in one comment, the tokens behind the second marker are not
  owners, although they are tokens of the text after the first marker.
\<close>

theorem both_markers_counterexample:
  "fst (extractGitHubUsernames ''* @x # docTriagers: a codeTriagers: b'') = [''a'', ''x'']
   \<and> splitByWhitespace '' a codeTriagers: b'' = [''a'', ''codeTriagers:'', ''b'']"
  by (simp add: extract_defs)

text \<open>
  Claim C6, as amended. For a line without owners in its declaration and with the
  comment \<open># docTriagers: @bob @carol\<close>, the extraction yields the two tokens as they
  are written, \<open>@bob\<close> and \<open>@carol\<close>: the \<open>@\<close> is not removed on this path.
\<close>

theorem doc_triagers_tokens_verbatim:
  assumes "CHR ''#'' \<notin> set decl" and "CHR 0x0A \<notin> set decl"
    and "drop 1 (splitByWhitespace decl) = []"
  shows "extractGitHubUsernames (decl @ ''# docTriagers: @bob @carol'') = ([''@bob'', ''@carol''], [])"
proof -
  have line: "splitOn CHR 0x0A (decl @ ''# docTriagers: @bob @carol'') = [decl @ ''# docTriagers: @bob @carol'']"
    using assms(2) by (intro single_line) simp
  have decl: "takeWhile (\<lambda>c. c \<noteq> CHR ''#'') (decl @ ''# docTriagers: @bob @carol'') = decl"
    using assms(1) by (subst takeWhile_append2) auto
  have comment: "dropWhile (\<lambda>c. c \<noteq> CHR ''#'') (decl @ ''# docTriagers: @bob @carol'') = ''# docTriagers: @bob @carol''"
    using assms(1) by (subst dropWhile_append2) auto
  have custom: "customOwners '' docTriagers: @bob @carol'' [] = [''@bob'', ''@carol'']"
    by (simp add: string_defs customOwners_def)
  have none: "drop (Suc 0) (splitByWhitespace decl) = []"
    using assms(3) by simp
  show ?thesis
    unfolding extractGitHubUsernames_def line
    by (simp add: extractLine_filter decl comment custom none)
qed

theorem doc_triagers_tokens_verbatim_witness:
  "extractGitHubUsernames ''docs/ # docTriagers: @bob @carol'' = ([''@bob'', ''@carol''], [])"
  using doc_triagers_tokens_verbatim [of "''docs/ ''"] by (simp add: string_defs)

text \<open>The names without \<open>@\<close> are not in the result.\<close>

theorem doc_triagers_example_counterexample:
  "set (fst (extractGitHubUsernames ''# docTriagers: @bob @carol'')) \<noteq> {''bob'', ''carol''}"
proof -
  have "''bob'' \<notin> set (fst (extractGitHubUsernames ''# docTriagers: @bob @carol''))"
    by (simp add: extract_defs)
  then show ?thesis by blast
qed

section \<open>The steps of a collection pass\<close>

lemma getField_update_same: "getField (AList.update f v obj) f = v"
  by (simp add: getField_def update_conv')

lemma getField_update_other: "f' \<noteq> f \<Longrightarrow> getField (AList.update f v obj) f' = getField obj f'"
  by (simp add: getField_def update_conv')

lemma collectOwner_cases [case_names ignored thrown pushed notFound created]:
  fixes st :: "'g collect_state"
  assumes
    "owner \<in> set ignoredUsers \<Longrightarrow>
       collectOwner getGitHubProfile ignoredUsers r owner st =
         Returned (st\<lparr>diagnostics := diagnostics st @ [Debug (ignoreListMessage r owner)]\<rparr>)
       \<Longrightarrow> thesis"
    "owner \<notin> set ignoredUsers \<Longrightarrow>
       collectOwner getGitHubProfile ignoredUsers r owner st = Thrown TypeError st \<Longrightarrow>
       (map_of (currentMaintainers st) (toLowerCase owner) = None
          \<and> toLowerCase owner \<in> set objectPrototype)
       \<or> (\<exists>entry. map_of (currentMaintainers st) (toLowerCase owner) = Some entry
             \<and> (\<forall>repos. getField entry ''repos'' \<noteq> JArr repos))
       \<Longrightarrow> thesis"
    "\<And>entry repos. owner \<notin> set ignoredUsers \<Longrightarrow>
       map_of (currentMaintainers st) (toLowerCase owner) = Some entry \<Longrightarrow>
       getField entry ''repos'' = JArr repos \<Longrightarrow>
       collectOwner getGitHubProfile ignoredUsers r owner st =
         Returned (st\<lparr>currentMaintainers :=
           AList.update (toLowerCase owner) (AList.update ''repos'' (JArr (repos @ [JStr r])) entry)
             (currentMaintainers st)\<rparr>)
       \<Longrightarrow> thesis"
    "\<And>gh'. owner \<notin> set ignoredUsers \<Longrightarrow>
       map_of (currentMaintainers st) (toLowerCase owner) = None \<Longrightarrow>
       toLowerCase owner \<notin> set objectPrototype \<Longrightarrow>
       getGitHubProfile (github st) owner = (None, gh') \<Longrightarrow>
       collectOwner getGitHubProfile ignoredUsers r owner st =
         Returned (st\<lparr>github := gh', calls := calls st @ [(owner, None)],
           diagnostics := diagnostics st @ [Warning (notFoundMessage r owner)]\<rparr>)
       \<Longrightarrow> thesis"
    "\<And>gh' profile. owner \<notin> set ignoredUsers \<Longrightarrow>
       map_of (currentMaintainers st) (toLowerCase owner) = None \<Longrightarrow>
       toLowerCase owner \<notin> set objectPrototype \<Longrightarrow>
       getGitHubProfile (github st) owner = (Some profile, gh') \<Longrightarrow>
       collectOwner getGitHubProfile ignoredUsers r owner st =
         Returned (st\<lparr>github := gh', calls := calls st @ [(owner, Some profile)],
           currentMaintainers :=
             AList.update (toLowerCase owner) (AList.update ''repos'' (JArr [JStr r]) profile)
               (currentMaintainers st)\<rparr>)
       \<Longrightarrow> thesis"
  shows thesis
proof (cases "owner \<in> set ignoredUsers")
  case True
  then show ?thesis using assms(1) by (simp add: collectOwner_def)
next
  case notIgnored: False
  show ?thesis
  proof (cases "map_of (currentMaintainers st) (toLowerCase owner)")
    case (Some entry)
    show ?thesis
    proof (cases "\<exists>repos. getField entry ''repos'' = JArr repos")
      case True
      then obtain repos where "getField entry ''repos'' = JArr repos" ..
      with notIgnored Some show ?thesis
        using assms(3) [of entry repos]
        by (simp add: collectOwner_def pushRepo_def getProperty_def)
    next
      case False
      with notIgnored Some show ?thesis
        using assms(2)
        by (simp add: collectOwner_def pushRepo_def getProperty_def split: jsval.splits)
    qed
  next
    case None
    show ?thesis
    proof (cases "toLowerCase owner \<in> set objectPrototype")
      case True
      with notIgnored None show ?thesis
        using assms(2) by (simp add: collectOwner_def pushRepo_def getProperty_def)
    next
      case False
      obtain result gh' where call: "getGitHubProfile (github st) owner = (result, gh')"
        by (cases "getGitHubProfile (github st) owner")
      show ?thesis
      proof (cases result)
        case None
        with notIgnored \<open>map_of (currentMaintainers st) (toLowerCase owner) = None\<close> False call
        show ?thesis
          using assms(4) [of gh'] by (simp add: collectOwner_def getProperty_def)
      next
        case (Some profile)
        with notIgnored \<open>map_of (currentMaintainers st) (toLowerCase owner) = None\<close> False call
        show ?thesis
          using assms(5) [of profile gh']
          by (simp add: collectOwner_def getProperty_def pushRepo_def update_conv'
              getField_update_same)
      qed
    qed
  qed
qed

lemma collectOwners_final:
  assumes "P st"
    and "\<And>owner st. owner \<in> set owners \<Longrightarrow> P st \<Longrightarrow>
           P (final (collectOwner getGitHubProfile ignoredUsers r owner st))"
  shows "P (final (collectOwners getGitHubProfile ignoredUsers r owners st))"
  using assms
proof (induction owners arbitrary: st)
  case Nil
  then show ?case by simp
next
  case (Cons owner owners)
  have here: "P (final (collectOwner getGitHubProfile ignoredUsers r owner st))"
    using Cons.prems by simp
  show ?case
  proof (cases "collectOwner getGitHubProfile ignoredUsers r owner st")
    case (Returned st')
    with here have "P st'" by simp
    then have "P (final (collectOwners getGitHubProfile ignoredUsers r owners st'))"
      using Cons.prems(2) by (rule Cons.IH) simp_all
    with Returned show ?thesis by simp
  next
    case (Thrown e st')
    with here show ?thesis by simp
  qed
qed

lemma collectFiles_final:
  assumes "P st"
    and step: "\<And>file owner st. file \<in> set files \<Longrightarrow>
           owner \<in> set (fst (extractGitHubUsernames (content file))) \<Longrightarrow> P st \<Longrightarrow>
           P (final (collectOwner getGitHubProfile ignoredUsers (repo file) owner st))"
    and diag: "\<And>st ds. P st \<Longrightarrow> P (st\<lparr>diagnostics := ds\<rparr>)"
  shows "P (final (collectFiles getGitHubProfile ignoredUsers files st))"
  using assms(1,2)
proof (induction files arbitrary: st)
  case Nil
  then show ?case by simp
next
  case (Cons doc docs)
  have here: "P (final (collectFile getGitHubProfile ignoredUsers doc st))"
  proof -
    obtain owners warnings where ex: "extractGitHubUsernames (content doc) = (owners, warnings)"
      by (cases "extractGitHubUsernames (content doc)")
    have "P (final (collectOwners getGitHubProfile ignoredUsers (repo doc) owners
             (st\<lparr>diagnostics := diagnostics st @ warnings\<rparr>)))"
    proof (rule collectOwners_final [where P = P])
      show "P (st\<lparr>diagnostics := diagnostics st @ warnings\<rparr>)"
        using Cons.prems(1) by (rule diag)
    next
      fix owner st'
      assume "owner \<in> set owners" "P st'"
      then show "P (final (collectOwner getGitHubProfile ignoredUsers (repo doc) owner st'))"
        using Cons.prems(2) [of doc owner st'] ex by simp
    qed
    then show ?thesis
      by (simp add: collectFile_def ex)
  qed
  show ?case
  proof (cases "collectFile getGitHubProfile ignoredUsers doc st")
    case (Returned st')
    with here have "P st'" by simp
    then have "P (final (collectFiles getGitHubProfile ignoredUsers docs st'))"
      using Cons.prems(2) by (rule Cons.IH) simp_all
    with Returned show ?thesis by simp
  next
    case (Thrown e st')
    with here show ?thesis by simp
  qed
qed

lemma collectCurrentMaintainers_final:
  assumes "\<And>ds. P \<lparr>currentMaintainers = [], github = gh, calls = [], diagnostics = ds\<rparr>"
    and step: "\<And>file owner st. file \<in> set files \<Longrightarrow>
           owner \<in> set (fst (extractGitHubUsernames (content file))) \<Longrightarrow> P st \<Longrightarrow>
           P (final (collectOwner getGitHubProfile ignoredUsers (repo file) owner st))"
    and diag: "\<And>st ds. P st \<Longrightarrow> P (st\<lparr>diagnostics := ds\<rparr>)"
  shows "P (final (collectCurrentMaintainers getGitHubProfile ignoredUsers files gh))"
proof -
  let ?st = "\<lparr>currentMaintainers = [], github = gh, calls = [],
    diagnostics = [StartGroup ''Fetching  GitHub profile information for each codeowner'']\<rparr>"
  have "P (final (collectFiles getGitHubProfile ignoredUsers files ?st))"
    using assms(1) step diag by (rule collectFiles_final [where P = P])
  then show ?thesis
    unfolding collectCurrentMaintainers_def
    by (cases "collectFiles getGitHubProfile ignoredUsers files ?st") (simp_all add: diag)
qed

lemma reposOf_update_same:
  "reposOf (AList.update key (AList.update ''repos'' (JArr repos) entry) current) key = repos"
  by (simp add: reposOf_def update_conv' getField_update_same)

lemma reposOf_update_other:
  "k \<noteq> key \<Longrightarrow> reposOf (AList.update key entry current) k = reposOf current k"
  by (simp add: reposOf_def update_conv')

lemma hasRepos_update:
  "hasRepos current \<Longrightarrow>
   hasRepos (AList.update key (AList.update ''repos'' (JArr repos) entry) current)"
  by (simp add: hasRepos_def update_conv' getField_update_same)

text \<open>
  What one owner adds to the repositories of a key: nothing or the repository once, and
  the repository once where the owner is a spelling of the key off the ignore list, the
  lookup finds every spelling of the key, and the step returns.
\<close>

lemma collectOwner_repos:
  fixes st :: "'g collect_state"
  assumes wf: "hasRepos (currentMaintainers st)"
  shows "\<exists>n. hasRepos (currentMaintainers (final (collectOwner getGitHubProfile ignoredUsers r owner st)))
     \<and> n \<le> length (filter (\<lambda>owner. toLowerCase owner = key \<and> owner \<notin> set ignoredUsers) [owner])
     \<and> reposOf (currentMaintainers (final (collectOwner getGitHubProfile ignoredUsers r owner st))) key
           = reposOf (currentMaintainers st) key @ replicate n (JStr r)
     \<and> ((\<forall>gh owner. toLowerCase owner = key \<longrightarrow> fst (getGitHubProfile gh owner) \<noteq> None)
           \<and> (\<exists>s. collectOwner getGitHubProfile ignoredUsers r owner st = Returned s)
         \<longrightarrow> n = length (filter (\<lambda>owner. toLowerCase owner = key \<and> owner \<notin> set ignoredUsers) [owner]))
     \<and> (0 < n \<or> map_of (currentMaintainers st) key \<noteq> None
         \<longrightarrow> map_of (currentMaintainers (final (collectOwner getGitHubProfile ignoredUsers r owner st))) key \<noteq> None)"
  (is "\<exists>n. ?R n")
proof (cases rule: collectOwner_cases [of owner ignoredUsers getGitHubProfile r st])
  case ignored
  then have "?R 0" using wf by simp
  then show ?thesis ..
next
  case thrown
  then have "?R 0" using wf by simp
  then show ?thesis ..
next
  case (pushed entry repos)
  have before: "reposOf (currentMaintainers st) (toLowerCase owner) = repos"
    using pushed by (simp add: reposOf_def)
  show ?thesis
  proof (cases "toLowerCase owner = key")
    case True
    then have "?R 1"
      using pushed before wf by (simp add: reposOf_update_same hasRepos_update update_conv')
    then show ?thesis ..
  next
    case False
    then have "?R 0"
      using pushed wf by (simp add: reposOf_update_other hasRepos_update update_conv')
    then show ?thesis ..
  qed
next
  case (notFound gh')
  have none: "fst (getGitHubProfile (github st) owner) = None"
    using notFound by simp
  have "?R 0"
  proof (cases "toLowerCase owner = key")
    case True
    with none have "\<not> (\<forall>gh owner. toLowerCase owner = key \<longrightarrow> fst (getGitHubProfile gh owner) \<noteq> None)"
      by blast
    then show ?thesis using notFound wf by simp
  next
    case False
    then show ?thesis using notFound wf by simp
  qed
  then show ?thesis ..
next
  case (created gh' profile)
  have before: "reposOf (currentMaintainers st) (toLowerCase owner) = []"
    using created by (simp add: reposOf_def)
  show ?thesis
  proof (cases "toLowerCase owner = key")
    case True
    then have "?R 1"
      using created before wf by (simp add: reposOf_update_same hasRepos_update update_conv')
    then show ?thesis ..
  next
    case False
    then have "?R 0"
      using created wf by (simp add: reposOf_update_other hasRepos_update update_conv')
    then show ?thesis ..
  qed
qed

lemma collectOwners_repos:
  fixes st :: "'g collect_state"
  assumes "hasRepos (currentMaintainers st)"
  shows "\<exists>n. hasRepos (currentMaintainers (final (collectOwners getGitHubProfile ignoredUsers r owners st)))
     \<and> n \<le> length (filter (\<lambda>owner. toLowerCase owner = key \<and> owner \<notin> set ignoredUsers) owners)
     \<and> reposOf (currentMaintainers (final (collectOwners getGitHubProfile ignoredUsers r owners st))) key
           = reposOf (currentMaintainers st) key @ replicate n (JStr r)
     \<and> ((\<forall>gh owner. toLowerCase owner = key \<longrightarrow> fst (getGitHubProfile gh owner) \<noteq> None)
           \<and> (\<exists>s. collectOwners getGitHubProfile ignoredUsers r owners st = Returned s)
         \<longrightarrow> n = length (filter (\<lambda>owner. toLowerCase owner = key \<and> owner \<notin> set ignoredUsers) owners))
     \<and> (0 < n \<or> map_of (currentMaintainers st) key \<noteq> None
         \<longrightarrow> map_of (currentMaintainers (final (collectOwners getGitHubProfile ignoredUsers r owners st))) key \<noteq> None)"
  using assms
proof (induction owners arbitrary: st)
  case Nil
  then show ?case by simp
next
  case (Cons owner owners)
  let ?sel = "\<lambda>owner. toLowerCase owner = key \<and> owner \<notin> set ignoredUsers"
  let ?H = "\<forall>gh owner. toLowerCase owner = key \<longrightarrow> fst (getGitHubProfile gh owner) \<noteq> None"
  let ?one = "collectOwner getGitHubProfile ignoredUsers r owner st"
  from collectOwner_repos [OF Cons.prems, where getGitHubProfile = getGitHubProfile
      and ignoredUsers = ignoredUsers and r = r and owner = owner and key = key]
  obtain n where wf: "hasRepos (currentMaintainers (final ?one))"
    and n: "n \<le> length (filter ?sel [owner])"
    and eq: "reposOf (currentMaintainers (final ?one)) key
               = reposOf (currentMaintainers st) key @ replicate n (JStr r)"
    and exact: "?H \<and> (\<exists>s. ?one = Returned s) \<longrightarrow> n = length (filter ?sel [owner])"
    and present: "0 < n \<or> map_of (currentMaintainers st) key \<noteq> None
         \<longrightarrow> map_of (currentMaintainers (final ?one)) key \<noteq> None"
    by blast
  show ?case
  proof (cases ?one)
    case (Returned st1)
    let ?rest = "collectOwners getGitHubProfile ignoredUsers r owners st1"
    from Cons.IH [of st1] wf Returned
    obtain m where wf': "hasRepos (currentMaintainers (final ?rest))"
      and m: "m \<le> length (filter ?sel owners)"
      and eq': "reposOf (currentMaintainers (final ?rest)) key
               = reposOf (currentMaintainers st1) key @ replicate m (JStr r)"
      and exact': "?H \<and> (\<exists>s. ?rest = Returned s) \<longrightarrow> m = length (filter ?sel owners)"
      and present': "0 < m \<or> map_of (currentMaintainers st1) key \<noteq> None
         \<longrightarrow> map_of (currentMaintainers (final ?rest)) key \<noteq> None"
      by auto
    have all: "collectOwners getGitHubProfile ignoredUsers r (owner # owners) st = ?rest"
      using Returned by simp
    have "n + m \<le> length (filter ?sel (owner # owners))"
      using n m by (auto split: if_splits)
    moreover have "reposOf (currentMaintainers (final ?rest)) key
        = reposOf (currentMaintainers st) key @ replicate (n + m) (JStr r)"
      using Returned eq eq' by (simp add: replicate_add)
    moreover have "?H \<and> (\<exists>s. ?rest = Returned s) \<longrightarrow> n + m = length (filter ?sel (owner # owners))"
      using exact exact' Returned by (auto split: if_splits)
    moreover have "0 < n + m \<or> map_of (currentMaintainers st) key \<noteq> None
         \<longrightarrow> map_of (currentMaintainers (final ?rest)) key \<noteq> None"
      using present present' Returned by auto
    ultimately show ?thesis
      unfolding all using wf' by blast
  next
    case (Thrown e st1)
    have all: "collectOwners getGitHubProfile ignoredUsers r (owner # owners) st = Thrown e st1"
      using Thrown by simp
    have "n \<le> length (filter ?sel (owner # owners))"
      using n by (auto split: if_splits)
    then show ?thesis
      unfolding all using wf eq present Thrown by auto
  qed
qed

section \<open>The profile lookups of a pass\<close>

text \<open>
  Claim C1, as amended. In one collection pass, once a lookup has returned a profile,
  no later lookup is made for a name with the same lower-cased form: so at most one
  lookup per lower-cased username returns a profile.
\<close>

theorem no_lookup_after_profile_found:
  fixes getGitHubProfile :: "'g \<Rightarrow> string \<Rightarrow> jsobject option \<times> 'g"
    and ignoredUsers :: "string list" and files :: "codeowners list" and gh :: 'g
  defines "pass \<equiv> final (collectCurrentMaintainers getGitHubProfile ignoredUsers files gh)"
  shows "(\<forall>i j. i < j \<and> j < length (calls pass) \<and> snd (calls pass ! i) \<noteq> None
           \<longrightarrow> toLowerCase (fst (calls pass ! j)) \<noteq> toLowerCase (fst (calls pass ! i)))
       \<and> (\<forall>key. length (filter (\<lambda>c. toLowerCase (fst c) = key \<and> snd c \<noteq> None) (calls pass)) \<le> 1)"
proof -
  let ?A = "\<lambda>st :: 'g collect_state.
     \<forall>c \<in> set (calls st). snd c \<noteq> None \<longrightarrow> toLowerCase (fst c) \<in> fst ` set (currentMaintainers st)"
  let ?B = "\<lambda>st :: 'g collect_state.
     \<forall>i j. i < j \<and> j < length (calls st) \<and> snd (calls st ! i) \<noteq> None
           \<longrightarrow> toLowerCase (fst (calls st ! j)) \<noteq> toLowerCase (fst (calls st ! i))"
  let ?C = "\<lambda>st :: 'g collect_state.
     \<forall>key. length (filter (\<lambda>c. toLowerCase (fst c) = key \<and> snd c \<noteq> None) (calls st)) \<le> 1"
  let ?P = "\<lambda>st. ?A st \<and> ?B st \<and> ?C st"
  have "?P pass"
    unfolding pass_def
  proof (rule collectCurrentMaintainers_final [where P = ?P])
    show "?P \<lparr>currentMaintainers = [], github = gh, calls = [], diagnostics = ds\<rparr>" for ds
      by simp
  next
    show "?P (st\<lparr>diagnostics := ds\<rparr>)" if "?P st" for st :: "'g collect_state" and ds
      using that by simp
  next
    fix doc :: codeowners and owner and st :: "'g collect_state"
    assume P: "?P st"
    then have A: "?A st" and B: "?B st" and C: "?C st"
      by blast+
    have absent: "toLowerCase (fst (calls st ! i)) \<noteq> toLowerCase owner"
      if "map_of (currentMaintainers st) (toLowerCase owner) = None"
        "i < length (calls st)" "snd (calls st ! i) \<noteq> None" for i
      using A that by (metis map_of_eq_None_iff nth_mem)
    have none: "filter (\<lambda>c. toLowerCase (fst c) = toLowerCase owner \<and> snd c \<noteq> None) (calls st) = []"
      if "map_of (currentMaintainers st) (toLowerCase owner) = None"
      using A that unfolding filter_empty_conv by (metis map_of_eq_None_iff)
    have B': "?B (st\<lparr>calls := calls st @ [(owner, result)]\<rparr>)"
      if new: "map_of (currentMaintainers st) (toLowerCase owner) = None" for result
    proof (intro allI impI)
      fix i j
      let ?calls = "calls (st\<lparr>calls := calls st @ [(owner, result)]\<rparr>)"
      assume ij: "i < j \<and> j < length ?calls \<and> snd (?calls ! i) \<noteq> None"
      show "toLowerCase (fst (?calls ! j)) \<noteq> toLowerCase (fst (?calls ! i))"
      proof (cases "j < length (calls st)")
        case True
        with ij have i: "i < length (calls st)"
          by simp
        with ij have "snd (calls st ! i) \<noteq> None"
          by (simp add: nth_append)
        with ij True have "toLowerCase (fst (calls st ! j)) \<noteq> toLowerCase (fst (calls st ! i))"
          using B by blast
        then show ?thesis
          using i True by (simp add: nth_append)
      next
        case False
        with ij have j: "j = length (calls st)" and i: "i < length (calls st)"
          by simp_all
        from ij i have "snd (calls st ! i) \<noteq> None"
          by (simp add: nth_append)
        from absent [OF new i this] show ?thesis
          using i j by (simp add: nth_append)
      qed
    qed
    show "?P (final (collectOwner getGitHubProfile ignoredUsers (repo doc) owner st))"
    proof (cases rule: collectOwner_cases [of owner ignoredUsers getGitHubProfile "repo doc" st])
      case ignored
      with P show ?thesis by simp
    next
      case thrown
      with P show ?thesis by simp
    next
      case (pushed entry repos)
      with P show ?thesis by (simp add: dom_update)
    next
      case (notFound gh')
      have "?A (st\<lparr>calls := calls st @ [(owner, None)]\<rparr>)"
        using A by simp
      moreover have "?C (st\<lparr>calls := calls st @ [(owner, None)]\<rparr>)"
        using C by simp
      ultimately show ?thesis
        using B' [OF notFound(2), of None] notFound(5) by simp
    next
      case (created gh' profile)
      let ?st' = "st\<lparr>github := gh', calls := calls st @ [(owner, Some profile)],
           currentMaintainers :=
             AList.update (toLowerCase owner) (AList.update ''repos'' (JArr [JStr (repo doc)]) profile)
               (currentMaintainers st)\<rparr>"
      have "?A ?st'"
        using A by (simp add: dom_update)
      moreover have "?C ?st'"
      proof (intro allI)
        fix key
        show "length (filter (\<lambda>c. toLowerCase (fst c) = key \<and> snd c \<noteq> None) (calls ?st')) \<le> 1"
        proof (cases "toLowerCase owner = key")
          case True
          then show ?thesis using none [OF created(2)] by simp
        next
          case False
          then show ?thesis using C by simp
        qed
      qed
      ultimately show ?thesis
        using B' [OF created(2), of "Some profile"] created(5) by simp
    qed
  qed
  then show ?thesis by blast
qed

theorem no_lookup_after_profile_found_witness:
  "toLowerCase (fst (calls (final (collectCurrentMaintainers anyProfile []
       [\<lparr>repo = ''A'', content = ''* @Alice @bob''\<rparr>, \<lparr>repo = ''B'', content = ''* @alice''\<rparr>] ())) ! 1))
   \<noteq> toLowerCase (fst (calls (final (collectCurrentMaintainers anyProfile []
       [\<lparr>repo = ''A'', content = ''* @Alice @bob''\<rparr>, \<lparr>repo = ''B'', content = ''* @alice''\<rparr>] ())) ! 0))
   \<and> map fst (calls (final (collectCurrentMaintainers anyProfile []
       [\<lparr>repo = ''A'', content = ''* @Alice @bob''\<rparr>, \<lparr>repo = ''B'', content = ''* @alice''\<rparr>] ()))) = [''Alice'', ''bob'']"
  using no_lookup_after_profile_found [of anyProfile "[]" "[\<lparr>repo = ''A'', content = ''* @Alice @bob''\<rparr>, \<lparr>repo = ''B'', content = ''* @alice''\<rparr>]" "()"]
  by (simp add: collect_defs anyProfile_def)

text \<open>
  Two files declare \<open>@ghost\<close> and the lookup finds no profile: the lookup is called
  twice for \<open>ghost\<close>.
\<close>

theorem lookup_repeated_counterexample:
  "calls (final (collectCurrentMaintainers noProfile []
      [\<lparr>repo = ''A'', content = ''* @ghost''\<rparr>, \<lparr>repo = ''B'', content = ''* @ghost''\<rparr>] ()))
   = [(''ghost'', None), (''ghost'', None)]"
  by (simp add: collect_defs noProfile_def)

section \<open>The ignore list\<close>

text \<open>
  Claim C7, as amended. The ignore list is compared with the owner as it is written. An
  owner that is on the list in this spelling is never looked up; and a username all of
  whose declared spellings are on the list has no entry in the current maintainers and
  triggers no lookup, however many files declare it.
\<close>

theorem ignored_spellings_skipped:
  fixes getGitHubProfile :: "'g \<Rightarrow> string \<Rightarrow> jsobject option \<times> 'g"
    and ignoredUsers :: "string list" and files :: "codeowners list" and gh :: 'g
  defines "pass \<equiv> final (collectCurrentMaintainers getGitHubProfile ignoredUsers files gh)"
  shows "(\<forall>c \<in> set (calls pass). fst c \<notin> set ignoredUsers)
       \<and> (\<forall>key. (\<forall>file \<in> set files. \<forall>owner \<in> set (fst (extractGitHubUsernames (content file))).
                    toLowerCase owner = key \<longrightarrow> owner \<in> set ignoredUsers)
              \<longrightarrow> key \<notin> fst ` set (currentMaintainers pass)
                  \<and> (\<forall>c \<in> set (calls pass). toLowerCase (fst c) \<noteq> key))"
proof -
  let ?named = "\<lambda>owner. owner \<notin> set ignoredUsers
      \<and> (\<exists>file \<in> set files. owner \<in> set (fst (extractGitHubUsernames (content file))))"
  let ?P = "\<lambda>st :: 'g collect_state.
     (\<forall>c \<in> set (calls st). ?named (fst c))
     \<and> (\<forall>key \<in> fst ` set (currentMaintainers st). \<exists>owner. ?named owner \<and> toLowerCase owner = key)"
  have "?P pass"
    unfolding pass_def
  proof (rule collectCurrentMaintainers_final [where P = ?P])
    show "?P \<lparr>currentMaintainers = [], github = gh, calls = [], diagnostics = ds\<rparr>" for ds
      by simp
  next
    show "?P (st\<lparr>diagnostics := ds\<rparr>)" if "?P st" for st :: "'g collect_state" and ds
      using that by simp
  next
    fix doc :: codeowners and owner and st :: "'g collect_state"
    assume doc: "doc \<in> set files" "owner \<in> set (fst (extractGitHubUsernames (content doc)))"
      and P: "?P st"
    show "?P (final (collectOwner getGitHubProfile ignoredUsers (repo doc) owner st))"
    proof (cases rule: collectOwner_cases [of owner ignoredUsers getGitHubProfile "repo doc" st])
      case ignored
      with P show ?thesis by simp
    next
      case thrown
      with P show ?thesis by simp
    next
      case (pushed entry repos)
      with P doc show ?thesis by (auto simp: dom_update)
    next
      case (notFound gh')
      with P doc show ?thesis by auto
    next
      case (created gh' profile)
      with P doc show ?thesis by (auto simp: dom_update)
    qed
  qed
  then show ?thesis by blast
qed

theorem ignored_spellings_skipped_witness:
  "''ghost'' \<notin> fst ` set (currentMaintainers (final (collectCurrentMaintainers anyProfile [''ghost'', ''Ghost'']
        [\<lparr>repo = ''A'', content = ''* @Ghost @alice''\<rparr>, \<lparr>repo = ''B'', content = ''* @ghost''\<rparr>] ())))
   \<and> map fst (calls (final (collectCurrentMaintainers anyProfile [''ghost'', ''Ghost'']
        [\<lparr>repo = ''A'', content = ''* @Ghost @alice''\<rparr>, \<lparr>repo = ''B'', content = ''* @ghost''\<rparr>] ()))) = [''alice'']"
  using ignored_spellings_skipped [of anyProfile "[''ghost'', ''Ghost'']"
      "[\<lparr>repo = ''A'', content = ''* @Ghost @alice''\<rparr>, \<lparr>repo = ''B'', content = ''* @ghost''\<rparr>]" "()"]
  by (simp add: collect_defs anyProfile_def)

text \<open>
  The list holds \<open>bot\<close> and a file declares \<open>@Bot\<close>: the lower-cased form is on
  the list, and yet \<open>Bot\<close> is looked up and \<open>bot\<close> gets an entry.
\<close>

theorem ignore_list_case_counterexample:
  "toLowerCase ''Bot'' \<in> set [''bot'']
   \<and> map fst (currentMaintainers (final (collectCurrentMaintainers anyProfile [''bot'']
        [\<lparr>repo = ''A'', content = ''* @Bot''\<rparr>] ()))) = [''bot'']
   \<and> map fst (calls (final (collectCurrentMaintainers anyProfile [''bot'']
        [\<lparr>repo = ''A'', content = ''* @Bot''\<rparr>] ()))) = [''Bot'']"
  by (simp add: collect_defs anyProfile_def)



lemma collectFile_repos:
  fixes st :: "'g collect_state"
  assumes "hasRepos (currentMaintainers st)"
  shows "\<exists>n. hasRepos (currentMaintainers (final (collectFile getGitHubProfile ignoredUsers doc st)))
     \<and> n \<le> length (filter (\<lambda>owner. toLowerCase owner = key \<and> owner \<notin> set ignoredUsers)
                  (fst (extractGitHubUsernames (content doc))))
     \<and> reposOf (currentMaintainers (final (collectFile getGitHubProfile ignoredUsers doc st))) key
           = reposOf (currentMaintainers st) key @ replicate n (JStr (repo doc))
     \<and> ((\<forall>gh owner. toLowerCase owner = key \<longrightarrow> fst (getGitHubProfile gh owner) \<noteq> None)
           \<and> (\<exists>s. collectFile getGitHubProfile ignoredUsers doc st = Returned s)
         \<longrightarrow> n = length (filter (\<lambda>owner. toLowerCase owner = key \<and> owner \<notin> set ignoredUsers)
                  (fst (extractGitHubUsernames (content doc)))))
     \<and> (0 < n \<or> map_of (currentMaintainers st) key \<noteq> None
         \<longrightarrow> map_of (currentMaintainers (final (collectFile getGitHubProfile ignoredUsers doc st))) key \<noteq> None)"
proof -
  obtain owners warnings where ex: "extractGitHubUsernames (content doc) = (owners, warnings)"
    by (cases "extractGitHubUsernames (content doc)")
  have "hasRepos (currentMaintainers (st\<lparr>diagnostics := diagnostics st @ warnings\<rparr>))"
    using assms by simp
  from collectOwners_repos [OF this, where getGitHubProfile = getGitHubProfile
      and ignoredUsers = ignoredUsers and r = "repo doc" and owners = owners and key = key]
  show ?thesis
    by (simp add: collectFile_def ex)
qed







lemma collectFiles_append:
  "collectFiles getGitHubProfile ignoredUsers (xs @ ys) st =
     (case collectFiles getGitHubProfile ignoredUsers xs st of
        Returned st' \<Rightarrow> collectFiles getGitHubProfile ignoredUsers ys st'
      | Thrown e st' \<Rightarrow> Thrown e st')"
  by (induction xs arbitrary: st) (auto split: outcome.splits)

lemma distinct_setAdd: "distinct s \<Longrightarrow> distinct (setAdd s x)"
  by (simp add: setAdd_def)

lemma distinct_foldl_setAdd: "distinct s \<Longrightarrow> distinct (foldl setAdd s xs)"
  by (induction xs arbitrary: s) (simp_all add: distinct_setAdd)

lemma distinct_extractLine: "distinct (fst st) \<Longrightarrow> distinct (fst (extractLine line st))"
  by (cases st) (simp add: extractLine_filter customOwners_def distinct_foldl_setAdd split: option.splits)

lemma distinct_fold_extractLine: "distinct (fst st) \<Longrightarrow> distinct (fst (fold extractLine lines st))"
  by (induction lines arbitrary: st) (simp_all add: distinct_extractLine)

lemma distinct_extractGitHubUsernames: "distinct (fst (extractGitHubUsernames codeownersContent))"
  by (simp add: extractGitHubUsernames_def distinct_fold_extractLine)

section \<open>The repositories of an entry\<close>




text \<open>
  Claim C8, as amended. Processing one more file appends the repository of the file to
  the \<^verbatim>\<open>repos\<close> of an entry at most once for each distinct spelling of the username
  among the owners of the file that are not on the ignore list: at most once where the
  file declares the username in one spelling only, however often.
\<close>

theorem repo_appended_once_per_spelling:
  fixes getGitHubProfile :: "'g \<Rightarrow> string \<Rightarrow> jsobject option \<times> 'g"
    and ignoredUsers :: "string list" and doc :: codeowners and key :: string
  defines "spellings \<equiv> filter (\<lambda>owner. toLowerCase owner = key \<and> owner \<notin> set ignoredUsers)
                         (fst (extractGitHubUsernames (content doc)))"
  assumes before: "collectCurrentMaintainers getGitHubProfile ignoredUsers files gh = Returned st"
  shows "\<exists>n. n \<le> length spellings \<and> distinct spellings
      \<and> ((\<forall>a \<in> set spellings. \<forall>b \<in> set spellings. a = b) \<longrightarrow> n \<le> 1)
      \<and> reposOf (currentMaintainers
           (final (collectCurrentMaintainers getGitHubProfile ignoredUsers (files @ [doc]) gh))) key
         = reposOf (currentMaintainers st) key @ replicate n (JStr (repo doc))"
proof -
  let ?st0 = "\<lparr>currentMaintainers = [], github = gh, calls = [],
    diagnostics = [StartGroup ''Fetching  GitHub profile information for each codeowner'']\<rparr>"
  from before obtain s where s: "collectFiles getGitHubProfile ignoredUsers files ?st0 = Returned s"
    and st: "st = s\<lparr>diagnostics := diagnostics s @ [EndGroup]\<rparr>"
    by (auto simp: collectCurrentMaintainers_def split: outcome.splits)
  have "hasRepos (currentMaintainers (final (collectFiles getGitHubProfile ignoredUsers files ?st0)))"
  proof (rule collectFiles_final [where P = "\<lambda>st. hasRepos (currentMaintainers st)"])
    show "hasRepos (currentMaintainers ?st0)"
      by (simp add: hasRepos_def)
  next
    fix doc :: codeowners and owner and st :: "'g collect_state"
    assume "hasRepos (currentMaintainers st)"
    from collectOwner_repos [OF this, where getGitHubProfile = getGitHubProfile
        and ignoredUsers = ignoredUsers and r = "repo doc" and owner = owner]
    show "hasRepos (currentMaintainers (final (collectOwner getGitHubProfile ignoredUsers (repo doc) owner st)))"
      by blast
  qed simp
  with s have wf: "hasRepos (currentMaintainers s)"
    by simp
  have run: "final (collectFiles getGitHubProfile ignoredUsers (files @ [doc]) ?st0)
      = final (collectFile getGitHubProfile ignoredUsers doc s)"
    by (simp add: collectFiles_append s split: outcome.splits)
  have cur: "currentMaintainers (final (collectCurrentMaintainers getGitHubProfile ignoredUsers (files @ [doc]) gh))
      = currentMaintainers (final (collectFile getGitHubProfile ignoredUsers doc s))"
    using run unfolding collectCurrentMaintainers_def
    by (cases "collectFiles getGitHubProfile ignoredUsers (files @ [doc]) ?st0") auto
  from collectFile_repos [OF wf, where getGitHubProfile = getGitHubProfile
      and ignoredUsers = ignoredUsers and doc = doc and key = key]
  obtain n where n: "n \<le> length spellings"
    and eq: "reposOf (currentMaintainers (final (collectFile getGitHubProfile ignoredUsers doc s))) key
           = reposOf (currentMaintainers s) key @ replicate n (JStr (repo doc))"
    unfolding spellings_def by blast
  have dist: "distinct spellings"
    unfolding spellings_def by (simp add: distinct_extractGitHubUsernames)
  have one: "n \<le> 1" if same: "\<forall>a \<in> set spellings. \<forall>b \<in> set spellings. a = b"
  proof -
    have "card (set spellings) \<le> 1"
      using same by (metis card_le_Suc0_iff_eq List.finite_set One_nat_def)
    with dist n show ?thesis
      by (simp add: distinct_card)
  qed
  show ?thesis
    using n dist one eq cur st by auto
qed

theorem repo_appended_once_per_spelling_witness:
  "reposOf (currentMaintainers (final (collectCurrentMaintainers anyProfile []
       ([\<lparr>repo = ''A'', content = ''* @alice''\<rparr>] @ [\<lparr>repo = ''B'', content = ''*.md @alice\<newline>*.js @alice''\<rparr>]) ()))) ''alice''
     = [JStr ''A'', JStr ''B'']"
  using repo_appended_once_per_spelling [of anyProfile "[]" "[\<lparr>repo = ''A'', content = ''* @alice''\<rparr>]" "()"
       "final (collectCurrentMaintainers anyProfile [] [\<lparr>repo = ''A'', content = ''* @alice''\<rparr>] ())"
       "''alice''" "\<lparr>repo = ''B'', content = ''*.md @alice\<newline>*.js @alice''\<rparr>"]
  by (simp add: collect_defs anyProfile_def reposOf_def)

text \<open>One file declares \<open>@Alice\<close> and \<open>@alice\<close>: its repository is appended twice.\<close>

theorem case_variants_repeat_repo_counterexample:
  "currentMaintainers (final (collectCurrentMaintainers anyProfile []
        [\<lparr>repo = ''A'', content = ''* @Alice @alice''\<rparr>] ()))
   = [(''alice'', [(''github'', JStr ''Alice''), (''githubID'', JNum 7),
        (''repos'', JArr [JStr ''A'', JStr ''A''])])]"
  by (simp add: collect_defs anyProfile_def)

section \<open>The loop over the previous maintainers\<close>

lemma refreshEntries_append:
  "refreshEntries (xs @ ys) st =
     (case refreshEntries xs st of
        Returned st' \<Rightarrow> refreshEntries ys st'
      | Thrown e st' \<Rightarrow> Thrown e st')"
  by (induction xs arbitrary: st) (auto split: outcome.splits)

lemma delete_filter: "AList.delete k al = filter (\<lambda>q. fst q \<noteq> k) al"
  by (induction al) auto

lemma delete_absent: "map_of al k = None \<Longrightarrow> filter (\<lambda>q. fst q \<noteq> k) al = al"
  by (induction al) auto

lemma refreshEntry_result:
  assumes "getField previousEntry ''github'' = JStr gh"
  shows "refreshEntry previousEntry st =
     Returned (st\<lparr>remainingMaintainers := remainingAfter (remainingMaintainers st) [previousEntry],
        updatedMaintainers := updatedMaintainers st @
          (if getProperty (remainingMaintainers st) (keyOf previousEntry) = Absent then []
           else [refreshedEntry (getProperty (remainingMaintainers st) (keyOf previousEntry)) previousEntry]),
        notices := notices st @
          (if getProperty (remainingMaintainers st) (keyOf previousEntry) = Absent
           then [Info (removingMessage (githubOf previousEntry))] else [])\<rparr>)"
proof (cases "getProperty (remainingMaintainers st) (toLowerCase gh)")
  case (Own e)
  then show ?thesis
    using assms
    by (simp add: refreshEntry_def keyOf_def githubOf_def remainingAfter_def refreshedEntry_def
        delete_filter)
next
  case Inherited
  then show ?thesis
    using assms
    by (simp add: refreshEntry_def keyOf_def githubOf_def remainingAfter_def refreshedEntry_def
        delete_filter)
next
  case Absent
  then have "map_of (remainingMaintainers st) (toLowerCase gh) = None"
    by (simp add: getProperty_def split: option.splits)
  then have "filter (\<lambda>q. fst q \<noteq> toLowerCase gh) (remainingMaintainers st) = remainingMaintainers st"
    by (rule delete_absent)
  with Absent show ?thesis
    using assms
    by (simp add: refreshEntry_def keyOf_def githubOf_def remainingAfter_def)
qed

lemma remainingAfter_append:
  "remainingAfter (remainingAfter current xs) ys = remainingAfter current (xs @ ys)"
  by (auto simp: remainingAfter_def intro: filter_cong)

lemma refreshEntries_result:
  assumes "\<forall>p \<in> set previous. \<exists>gh. getField p ''github'' = JStr gh"
  shows "refreshEntries previous st =
     Returned (st\<lparr>remainingMaintainers := remainingAfter (remainingMaintainers st) previous,
        updatedMaintainers := updatedMaintainers st @
          map (\<lambda>i. refreshedEntry
                 (getProperty (remainingAfter (remainingMaintainers st) (take i previous)) (keyOf (previous ! i)))
                 (previous ! i))
            (filter (\<lambda>i. getProperty (remainingAfter (remainingMaintainers st) (take i previous))
                           (keyOf (previous ! i)) \<noteq> Absent)
               [0..<length previous]),
        notices := notices st @
          map (\<lambda>i. Info (removingMessage (githubOf (previous ! i))))
            (filter (\<lambda>i. getProperty (remainingAfter (remainingMaintainers st) (take i previous))
                           (keyOf (previous ! i)) = Absent)
               [0..<length previous])\<rparr>)"
  using assms
proof (induction previous rule: rev_induct)
  case Nil
  then show ?case by (simp add: remainingAfter_def)
next
  case (snoc p xs)
  let ?m = "remainingMaintainers st"
  let ?found = "\<lambda>l i. getProperty (remainingAfter ?m (take i l)) (keyOf (l ! i))"
  from snoc.prems obtain gh where gh: "getField p ''github'' = JStr gh"
    by auto
  have old: "?found (xs @ [p]) i = ?found xs i" "(xs @ [p]) ! i = xs ! i" if "i < length xs" for i
    using that by (simp_all add: nth_append)
  have last: "?found (xs @ [p]) (length xs) = getProperty (remainingAfter ?m xs) (keyOf p)"
    by simp
  have kept: "filter (\<lambda>i. ?found (xs @ [p]) i \<noteq> Absent) [0..<length xs]
      = filter (\<lambda>i. ?found xs i \<noteq> Absent) [0..<length xs]"
    by (rule filter_cong) (simp_all add: old)
  have dropped: "filter (\<lambda>i. ?found (xs @ [p]) i = Absent) [0..<length xs]
      = filter (\<lambda>i. ?found xs i = Absent) [0..<length xs]"
    by (rule filter_cong) (simp_all add: old)
  have entries: "map (\<lambda>i. refreshedEntry (?found (xs @ [p]) i) ((xs @ [p]) ! i))
        (filter (\<lambda>i. ?found (xs @ [p]) i \<noteq> Absent) [0..<length (xs @ [p])])
      = map (\<lambda>i. refreshedEntry (?found xs i) (xs ! i))
          (filter (\<lambda>i. ?found xs i \<noteq> Absent) [0..<length xs])
        @ (if getProperty (remainingAfter ?m xs) (keyOf p) = Absent then []
           else [refreshedEntry (getProperty (remainingAfter ?m xs) (keyOf p)) p])"
  proof -
    have "map (\<lambda>i. refreshedEntry (?found (xs @ [p]) i) ((xs @ [p]) ! i))
        (filter (\<lambda>i. ?found xs i \<noteq> Absent) [0..<length xs])
      = map (\<lambda>i. refreshedEntry (?found xs i) (xs ! i))
        (filter (\<lambda>i. ?found xs i \<noteq> Absent) [0..<length xs])"
      by (rule map_cong) (simp_all add: old)
    then show ?thesis
      by (simp only: length_append_singleton upt_Suc_append [OF le0] filter_append map_append
          kept last) simp
  qed
  have messages: "map (\<lambda>i. Info (removingMessage (githubOf ((xs @ [p]) ! i))))
        (filter (\<lambda>i. ?found (xs @ [p]) i = Absent) [0..<length (xs @ [p])])
      = map (\<lambda>i. Info (removingMessage (githubOf (xs ! i))))
          (filter (\<lambda>i. ?found xs i = Absent) [0..<length xs])
        @ (if getProperty (remainingAfter ?m xs) (keyOf p) = Absent
           then [Info (removingMessage (githubOf p))] else [])"
  proof -
    have "map (\<lambda>i. Info (removingMessage (githubOf ((xs @ [p]) ! i))))
        (filter (\<lambda>i. ?found xs i = Absent) [0..<length xs])
      = map (\<lambda>i. Info (removingMessage (githubOf (xs ! i))))
        (filter (\<lambda>i. ?found xs i = Absent) [0..<length xs])"
      by (rule map_cong) (simp_all add: old)
    then show ?thesis
      by (simp only: length_append_singleton upt_Suc_append [OF le0] filter_append map_append
          dropped last) simp
  qed
  from snoc.IH snoc.prems have before: "refreshEntries xs st =
     Returned (st\<lparr>remainingMaintainers := remainingAfter ?m xs,
        updatedMaintainers := updatedMaintainers st @
          map (\<lambda>i. refreshedEntry (?found xs i) (xs ! i))
            (filter (\<lambda>i. ?found xs i \<noteq> Absent) [0..<length xs]),
        notices := notices st @
          map (\<lambda>i. Info (removingMessage (githubOf (xs ! i))))
            (filter (\<lambda>i. ?found xs i = Absent) [0..<length xs])\<rparr>)"
    by simp
  show ?case
    unfolding entries messages
    by (simp add: refreshEntries_append before refreshEntry_result [OF gh] remainingAfter_append)
qed

lemma map_of_remainingAfter:
  "map_of (remainingAfter current previous) k =
     (if k \<in> keyOf ` set previous then None else map_of current k)"
  by (induction current) (auto simp: remainingAfter_def)

lemma mset_objectValues: "mset (objectValues obj) = mset (map snd obj)"
proof -
  have "mset (objectEntries obj) = mset obj"
    by (simp add: objectEntries_def)
  then have "image_mset snd (mset (objectEntries obj)) = image_mset snd (mset obj)"
    by simp
  then show ?thesis
    by (simp add: objectValues_def)
qed

lemma filter_upt_nth:
  assumes "i < n" and "K i"
  shows "length (filter K [0..<i]) < length (filter K [0..<n])
     \<and> filter K [0..<n] ! length (filter K [0..<i]) = i"
proof -
  have "[0..<i + (n - i)] = [0..<i] @ [i..<i + (n - i)]"
    by (rule upt_add_eq_append) simp
  then have "[0..<n] = [0..<i] @ i # [Suc i..<n]"
    using assms(1) by (simp add: upt_conv_Cons)
  then have "filter K [0..<n] = filter K [0..<i] @ i # filter K [Suc i..<n]"
    using assms(2) by simp
  then show ?thesis
    by (simp add: nth_append)
qed

lemma refreshPreviousMaintainers_result:
  assumes "\<forall>p \<in> set previous. \<exists>gh. getField p ''github'' = JStr gh"
  shows "refreshPreviousMaintainers previous current =
     Returned \<lparr>updatedMaintainers =
          map (\<lambda>i. refreshedEntry
                 (getProperty (remainingAfter current (take i previous)) (keyOf (previous ! i)))
                 (previous ! i))
            (filter (\<lambda>i. getProperty (remainingAfter current (take i previous))
                           (keyOf (previous ! i)) \<noteq> Absent)
               [0..<length previous])
          @ objectValues (remainingAfter current previous),
        remainingMaintainers = remainingAfter current previous,
        notices = StartGroup ''Refreshing previous maintainers list'' #
          map (\<lambda>i. Info (removingMessage (githubOf (previous ! i))))
            (filter (\<lambda>i. getProperty (remainingAfter current (take i previous))
                           (keyOf (previous ! i)) = Absent)
               [0..<length previous])
          @ [EndGroup]\<rparr>"
  unfolding refreshPreviousMaintainers_def
  by (simp add: refreshEntries_result [OF assms])

section \<open>The reconciled roster\<close>

text \<open>
  Claim C3, as amended. Let every previous entry have a string \<^verbatim>\<open>github\<close> whose
  lower-cased form is not the name of a property of \<^verbatim>\<open>Object.prototype\<close>. Then the
  call returns, in the order of the previous entries, the updated entry of each
  previous entry whose key is a key of the current maintainers and is not the key of an
  earlier previous entry; each other previous entry is left out and reported with one
  notice; and behind the updated entries come the entries of the current maintainers
  whose key is the key of no previous entry, one for each such key, in the order of
  \<^verbatim>\<open>Object.values\<close>.
\<close>

theorem reconciled_roster:
  fixes previousMaintainers :: "jsobject list" and current :: "(string \<times> jsobject) list"
  defines "matched \<equiv> \<lambda>i. keyOf (previousMaintainers ! i) \<in> fst ` set current
                          \<and> keyOf (previousMaintainers ! i) \<notin> keyOf ` set (take i previousMaintainers)"
    and "updated \<equiv> \<lambda>p. AList.update ''githubID'' (getField (the (map_of current (keyOf p))) ''githubID'')
                          (AList.update ''repos'' (getField (the (map_of current (keyOf p))) ''repos'') p)"
    and "fresh \<equiv> filter (\<lambda>q. fst q \<notin> keyOf ` set previousMaintainers) current"
  assumes strings: "\<forall>p \<in> set previousMaintainers. \<exists>gh. getField p ''github'' = JStr gh"
    and own: "\<forall>p \<in> set previousMaintainers. keyOf p \<notin> set objectPrototype"
  shows "refreshPreviousMaintainers previousMaintainers current =
       Returned \<lparr>updatedMaintainers =
            map (\<lambda>i. updated (previousMaintainers ! i)) (filter matched [0..<length previousMaintainers])
            @ objectValues fresh,
          remainingMaintainers = fresh,
          notices = StartGroup ''Refreshing previous maintainers list'' #
            map (\<lambda>i. Info (removingMessage (githubOf (previousMaintainers ! i))))
              (filter (\<lambda>i. \<not> matched i) [0..<length previousMaintainers])
            @ [EndGroup]\<rparr>
     \<and> mset (objectValues fresh) = mset (map snd fresh)"
proof -
  let ?found = "\<lambda>i. getProperty (remainingAfter current (take i previousMaintainers))
                           (keyOf (previousMaintainers ! i))"
  have found: "?found i = (if matched i then Own (the (map_of current (keyOf (previousMaintainers ! i)))) else Absent)"
    if "i < length previousMaintainers" for i
  proof -
    from that own have "keyOf (previousMaintainers ! i) \<notin> set objectPrototype"
      by simp
    moreover have "keyOf (previousMaintainers ! i) \<in> fst ` set current
        \<longleftrightarrow> map_of current (keyOf (previousMaintainers ! i)) \<noteq> None"
      by (simp add: map_of_eq_None_iff)
    ultimately show ?thesis
      by (auto simp: getProperty_def map_of_remainingAfter matched_def)
  qed
  have kept: "filter (\<lambda>i. ?found i \<noteq> Absent) [0..<length previousMaintainers]
      = filter matched [0..<length previousMaintainers]"
    by (rule filter_cong) (simp_all add: found)
  have dropped: "filter (\<lambda>i. ?found i = Absent) [0..<length previousMaintainers]
      = filter (\<lambda>i. \<not> matched i) [0..<length previousMaintainers]"
    by (rule filter_cong) (simp_all add: found)
  have entries: "map (\<lambda>i. refreshedEntry (?found i) (previousMaintainers ! i))
        (filter matched [0..<length previousMaintainers])
      = map (\<lambda>i. updated (previousMaintainers ! i)) (filter matched [0..<length previousMaintainers])"
    by (rule map_cong) (simp_all add: found refreshedEntry_def updated_def)
  show ?thesis
    unfolding refreshPreviousMaintainers_result [OF strings] kept dropped entries
    by (simp add: fresh_def remainingAfter_def mset_objectValues)
qed

theorem reconciled_roster_witness:
  "refreshPreviousMaintainers
      [[(''github'', JStr ''Alice''), (''slack'', JStr ''a1'')],
       [(''github'', JStr ''dave''), (''slack'', JStr ''d1'')],
       [(''github'', JStr ''bob'')]]
      [(''bob'', [(''github'', JStr ''bob''), (''githubID'', JNum 2), (''repos'', JArr [JStr ''B''])]),
       (''carol'', [(''github'', JStr ''carol''), (''githubID'', JNum 3), (''repos'', JArr [JStr ''A''])]),
       (''7'', [(''github'', JStr ''7''), (''githubID'', JNum 4), (''repos'', JArr [JStr ''B''])]),
       (''alice'', [(''github'', JStr ''alice''), (''githubID'', JNum 1), (''repos'', JArr [JStr ''A'', JStr ''B''])])]
   = Returned \<lparr>updatedMaintainers =
       [[(''github'', JStr ''Alice''), (''slack'', JStr ''a1''), (''repos'', JArr [JStr ''A'', JStr ''B'']), (''githubID'', JNum 1)],
        [(''github'', JStr ''bob''), (''repos'', JArr [JStr ''B'']), (''githubID'', JNum 2)],
        [(''github'', JStr ''7''), (''githubID'', JNum 4), (''repos'', JArr [JStr ''B''])],
        [(''github'', JStr ''carol''), (''githubID'', JNum 3), (''repos'', JArr [JStr ''A''])]],
      remainingMaintainers =
       [(''carol'', [(''github'', JStr ''carol''), (''githubID'', JNum 3), (''repos'', JArr [JStr ''A''])]),
        (''7'', [(''github'', JStr ''7''), (''githubID'', JNum 4), (''repos'', JArr [JStr ''B''])])],
      notices = [StartGroup ''Refreshing previous maintainers list'',
        Info (removingMessage ''dave''), EndGroup]\<rparr>"
  using reconciled_roster [of "[[(''github'', JStr ''Alice''), (''slack'', JStr ''a1'')],
       [(''github'', JStr ''dave''), (''slack'', JStr ''d1'')],
       [(''github'', JStr ''bob'')]]"
      "[(''bob'', [(''github'', JStr ''bob''), (''githubID'', JNum 2), (''repos'', JArr [JStr ''B''])]),
       (''carol'', [(''github'', JStr ''carol''), (''githubID'', JNum 3), (''repos'', JArr [JStr ''A''])]),
       (''7'', [(''github'', JStr ''7''), (''githubID'', JNum 4), (''repos'', JArr [JStr ''B''])]),
       (''alice'', [(''github'', JStr ''alice''), (''githubID'', JNum 1), (''repos'', JArr [JStr ''A'', JStr ''B''])])]"]
  by (simp add: string_defs object_defs keyOf_def githubOf_def)

text \<open>
  Two previous entries, \<open>alice\<close> and \<open>Alice\<close>, have the key \<open>alice\<close> of the current
  maintainers: only the first one is in the result.
\<close>

theorem duplicate_previous_record_counterexample:
  "keyOf [(''github'', JStr ''Alice''), (''slack'', JStr ''a2'')] = ''alice''
   \<and> updatedMaintainers (final (refreshPreviousMaintainers
      [[(''github'', JStr ''alice''), (''slack'', JStr ''a1'')],
       [(''github'', JStr ''Alice''), (''slack'', JStr ''a2'')]]
      [(''alice'', [(''github'', JStr ''alice''), (''githubID'', JNum 7), (''repos'', JArr [JStr ''A''])])]))
   = [[(''github'', JStr ''alice''), (''slack'', JStr ''a1''), (''repos'', JArr [JStr ''A'']), (''githubID'', JNum 7)]]"
  by (simp add: refresh_defs keyOf_def githubOf_def)

text \<open>
  Claim C4. The entry pushed for a previous entry that a current entry matches has the
  \<^verbatim>\<open>repos\<close> and the \<^verbatim>\<open>githubID\<close> of the current entry, and every other field of it
  is the field of the previous entry. It is at position \<open>j\<close> of the result, where \<open>j\<close>
  counts the earlier previous entries that have pushed an entry.
\<close>

theorem previous_fields_preserved:
  fixes previousMaintainers :: "jsobject list" and current :: "(string \<times> jsobject) list"
    and i :: nat
  defines "j \<equiv> length (filter
      (\<lambda>k. getProperty (remainingAfter current (take k previousMaintainers))
             (keyOf (previousMaintainers ! k)) \<noteq> Absent) [0..<i])"
  assumes strings: "\<forall>p \<in> set previousMaintainers. \<exists>gh. getField p ''github'' = JStr gh"
    and i: "i < length previousMaintainers"
    and first: "keyOf (previousMaintainers ! i) \<notin> keyOf ` set (take i previousMaintainers)"
    and entry: "map_of current (keyOf (previousMaintainers ! i)) = Some entry"
  shows "\<exists>st. refreshPreviousMaintainers previousMaintainers current = Returned st
     \<and> j \<le> i \<and> j < length (updatedMaintainers st)
     \<and> (\<forall>f. f \<noteq> ''repos'' \<and> f \<noteq> ''githubID''
            \<longrightarrow> map_of (updatedMaintainers st ! j) f = map_of (previousMaintainers ! i) f)
     \<and> map_of (updatedMaintainers st ! j) ''repos'' = Some (getField entry ''repos'')
     \<and> map_of (updatedMaintainers st ! j) ''githubID'' = Some (getField entry ''githubID'')"
proof -
  let ?found = "\<lambda>i. getProperty (remainingAfter current (take i previousMaintainers))
                           (keyOf (previousMaintainers ! i))"
  let ?K = "\<lambda>i. ?found i \<noteq> Absent"
  let ?R = "\<lambda>i. refreshedEntry (?found i) (previousMaintainers ! i)"
  let ?out = "map ?R (filter ?K [0..<length previousMaintainers])
          @ objectValues (remainingAfter current previousMaintainers)"
  from refreshPreviousMaintainers_result [OF strings, of current]
  obtain st where returned: "refreshPreviousMaintainers previousMaintainers current = Returned st"
    and out: "updatedMaintainers st = ?out"
    by simp
  have found: "?found i = Own entry"
    using first entry by (simp add: getProperty_def map_of_remainingAfter)
  then have "?K i" by simp
  from filter_upt_nth [of i "length previousMaintainers" ?K, OF i this]
  have j: "j < length (filter ?K [0..<length previousMaintainers])"
    and at: "filter ?K [0..<length previousMaintainers] ! j = i"
    unfolding j_def by simp_all
  have "?out ! j = ?R i"
    using j at by (simp add: nth_append)
  also have "\<dots> = refreshedEntry (Own entry) (previousMaintainers ! i)"
    by (simp only: found)
  finally have pushed: "updatedMaintainers st ! j = refreshedEntry (Own entry) (previousMaintainers ! i)"
    by (simp only: out)
  have "j \<le> length [0..<i]"
    unfolding j_def by (rule length_filter_le)
  then have "j \<le> i"
    by simp
  moreover have "j < length (updatedMaintainers st)"
    using j by (simp add: out)
  moreover have "\<forall>f. f \<noteq> ''repos'' \<and> f \<noteq> ''githubID''
      \<longrightarrow> map_of (updatedMaintainers st ! j) f = map_of (previousMaintainers ! i) f"
    by (simp add: pushed refreshedEntry_def update_conv')
  moreover have "map_of (updatedMaintainers st ! j) ''repos'' = Some (getField entry ''repos'')"
    by (simp add: pushed refreshedEntry_def update_conv')
  moreover have "map_of (updatedMaintainers st ! j) ''githubID'' = Some (getField entry ''githubID'')"
    by (simp add: pushed refreshedEntry_def update_conv')
  ultimately show ?thesis
    using returned by blast
qed

theorem previous_fields_preserved_witness:
  "\<exists>st. refreshPreviousMaintainers
        [[(''github'', JStr ''dave'')],
         [(''github'', JStr ''Eve''), (''slack'', JStr ''#team-x''), (''repos'', JArr [JStr ''R0''])]]
        [(''eve'', [(''github'', JStr ''eve''), (''githubID'', JNum 42), (''repos'', JArr [JStr ''R1''])])]
        = Returned st
     \<and> map_of (updatedMaintainers st ! 0) ''github'' = Some (JStr ''Eve'')
     \<and> map_of (updatedMaintainers st ! 0) ''slack'' = Some (JStr ''#team-x'')
     \<and> map_of (updatedMaintainers st ! 0) ''repos'' = Some (JArr [JStr ''R1''])
     \<and> map_of (updatedMaintainers st ! 0) ''githubID'' = Some (JNum 42)"
proof -
  from previous_fields_preserved [of
      "[[(''github'', JStr ''dave'')],
        [(''github'', JStr ''Eve''), (''slack'', JStr ''#team-x''), (''repos'', JArr [JStr ''R0''])]]"
      1
      "[(''eve'', [(''github'', JStr ''eve''), (''githubID'', JNum 42), (''repos'', JArr [JStr ''R1''])])]"
      "[(''github'', JStr ''eve''), (''githubID'', JNum 42), (''repos'', JArr [JStr ''R1''])]"]
  obtain st where "refreshPreviousMaintainers
        [[(''github'', JStr ''dave'')],
         [(''github'', JStr ''Eve''), (''slack'', JStr ''#team-x''), (''repos'', JArr [JStr ''R0''])]]
        [(''eve'', [(''github'', JStr ''eve''), (''githubID'', JNum 42), (''repos'', JArr [JStr ''R1''])])]
        = Returned st"
    and "\<forall>f. f \<noteq> ''repos'' \<and> f \<noteq> ''githubID''
            \<longrightarrow> map_of (updatedMaintainers st ! 0) f
                = map_of [(''github'', JStr ''Eve''), (''slack'', JStr ''#team-x''), (''repos'', JArr [JStr ''R0''])] f"
    and "map_of (updatedMaintainers st ! 0) ''repos'' = Some (JArr [JStr ''R1''])"
    and "map_of (updatedMaintainers st ! 0) ''githubID'' = Some (JNum 42)"
    by (auto simp: string_defs object_defs keyOf_def githubOf_def remainingAfter_def)
  then show ?thesis
    by (intro exI [of _ st]) simp
qed

text \<open>
  Claim C10. The call deletes from the object it is given: when it returns, the object
  holds the entries whose key is the key of no previous entry, and no other; they are
  the new maintainers, which the result ends with.
\<close>

theorem current_map_consumed:
  assumes "\<forall>p \<in> set previousMaintainers. \<exists>gh. getField p ''github'' = JStr gh"
  shows "\<exists>st refreshed. refreshPreviousMaintainers previousMaintainers current = Returned st
     \<and> remainingMaintainers st = filter (\<lambda>q. fst q \<notin> keyOf ` set previousMaintainers) current
     \<and> length refreshed \<le> length previousMaintainers
     \<and> updatedMaintainers st = refreshed @ objectValues (remainingMaintainers st)
     \<and> mset (objectValues (remainingMaintainers st)) = mset (map snd (remainingMaintainers st))"
proof -
  let ?kept = "filter (\<lambda>i. getProperty (remainingAfter current (take i previousMaintainers))
                           (keyOf (previousMaintainers ! i)) \<noteq> Absent)
               [0..<length previousMaintainers]"
  have "length ?kept \<le> length [0..<length previousMaintainers]"
    by (rule length_filter_le)
  then have "length (map (\<lambda>i. refreshedEntry
                 (getProperty (remainingAfter current (take i previousMaintainers)) (keyOf (previousMaintainers ! i)))
                 (previousMaintainers ! i)) ?kept) \<le> length previousMaintainers"
    by simp
  then show ?thesis
    unfolding refreshPreviousMaintainers_result [OF assms]
    by (intro exI conjI) (auto simp: remainingAfter_def mset_objectValues simp del: length_map)
qed

theorem current_map_consumed_witness:
  "\<exists>st refreshed. refreshPreviousMaintainers
        [[(''github'', JStr ''Alice''), (''slack'', JStr ''a1'')], [(''github'', JStr ''dave'')]]
        [(''carol'', [(''github'', JStr ''carol'')]), (''alice'', [(''github'', JStr ''alice'')])] = Returned st
     \<and> remainingMaintainers st = [(''carol'', [(''github'', JStr ''carol'')])]
     \<and> length refreshed \<le> 2
     \<and> updatedMaintainers st = refreshed @ [[(''github'', JStr ''carol'')]]"
  using current_map_consumed [of "[[(''github'', JStr ''Alice''), (''slack'', JStr ''a1'')], [(''github'', JStr ''dave'')]]"
      "[(''carol'', [(''github'', JStr ''carol'')]), (''alice'', [(''github'', JStr ''alice'')])]"]
  by (simp add: refresh_defs keyOf_def githubOf_def)

end
